theory Spec2Isabelle
  imports Main "HOL-Library.Sublist"
begin

section \<open>Strings of the scripts\<close>

text \<open>
  The scripts under \<^verbatim>\<open>src/scripts\<close> work on Python \<^verbatim>\<open>str\<close> values: sequences of
  Unicode code points, most of them Japanese.  A character is modelled by its code point
  (a \<^typ>\<open>nat\<close>) and a string by the list of its code points, so that \<^term>\<open>length\<close>
  counts what Python's \<^verbatim>\<open>len\<close> counts.  ASCII text is written through \<open>u\<close>.
\<close>

type_synonym uchar = nat
type_synonym ustring = "nat list"

definition u :: "string \<Rightarrow> ustring" where
  "u s = map of_char s"

definition NL :: uchar where
  "NL = 10"

text \<open>
  \<^verbatim>\<open>\s\<close> in a \<^verbatim>\<open>str\<close> pattern and \<^verbatim>\<open>str.strip()\<close> use the same table of white space
  (CPython's \<^verbatim>\<open>Py_UNICODE_ISSPACE\<close>): the 29 code points below.
\<close>

definition py_whitespace :: "uchar list" where
  "py_whitespace =
     [9, 10, 11, 12, 13, 28, 29, 30, 31, 32, 133, 160, 5760,
      8192, 8193, 8194, 8195, 8196, 8197, 8198, 8199, 8200, 8201, 8202,
      8232, 8233, 8239, 8287, 12288]"

definition is_space :: "uchar \<Rightarrow> bool" where
  "is_space c = (c \<in> set py_whitespace)"

text \<open>\<^verbatim>\<open>s.strip()\<close>: white space removed at both ends.\<close>

definition py_strip :: "ustring \<Rightarrow> ustring" where
  "py_strip s = rev (dropWhile is_space (rev (dropWhile is_space s)))"

text \<open>\<^verbatim>\<open>s.rstrip()\<close>: white space removed at the end.\<close>

definition py_rstrip :: "ustring \<Rightarrow> ustring" where
  "py_rstrip s = rev (dropWhile is_space (rev s))"

text \<open>\<^verbatim>\<open>a in b\<close> on strings: \<open>a\<close> occurs in \<open>b\<close> as a contiguous block.\<close>

fun py_in :: "ustring \<Rightarrow> ustring \<Rightarrow> bool" where
  "py_in a [] = (a = [])"
| "py_in a (c # cs) = (prefix a (c # cs) \<or> py_in a cs)"

section \<open>Answer normalizer: \<^verbatim>\<open>normalize_answer_for_match\<close>\<close>

text \<open>
  The label class \<^verbatim>\<open>[a-e(1)..(10)]\<close>: the letters a to e (97 to 101) and the circled
  numbers one to ten (U+2460 to U+2469, 9312 to 9321).
\<close>

definition is_label :: "uchar \<Rightarrow> bool" where
  "is_label c = ((97 \<le> c \<and> c \<le> 101) \<or> (9312 \<le> c \<and> c \<le> 9321))"

text \<open>
  The class \<^verbatim>\<open>[\..,:: \s]\<close> of line 75: full stop (46), fullwidth full stop (65294),
  ideographic comma (12289), colon (58), fullwidth colon (65306), or white space.
\<close>

definition is_norm_sep :: "uchar \<Rightarrow> bool" where
  "is_norm_sep c = (c = 46 \<or> c = 65294 \<or> c = 12289 \<or> c = 58 \<or> c = 65306 \<or> is_space c)"

text \<open>
  Line 75, \<^verbatim>\<open>re.sub(r"^\s*[label]\s*[seps\s]*", "", s)\<close>.  Without \<^verbatim>\<open>MULTILINE\<close> the
  pattern can match at position 0 only, and it never matches the empty string, so at most
  one replacement happens.  All quantifiers are greedy and no label is white space, so the
  match exists iff the first character after the leading white space is a label, and it
  then consumes the white space and the separators that follow.
\<close>

definition strip_label :: "ustring \<Rightarrow> ustring" where
  "strip_label s =
     (case dropWhile is_space s of
        [] \<Rightarrow> s
      | c # cs \<Rightarrow>
          if is_label c then dropWhile is_norm_sep (dropWhile is_space cs) else s)"

definition is_open :: "uchar \<Rightarrow> bool" where
  "is_open c = (c = 65288 \<or> c = 40)"

definition is_close :: "uchar \<Rightarrow> bool" where
  "is_close c = (c = 65289 \<or> c = 41)"

text \<open>
  Line 78, \<^verbatim>\<open>re.sub(r"[((]([^))]*)[))]", r"\1", s)\<close>: scanning from the left, an opening
  bracket followed later by a closing bracket is a match that ends at the first closing
  bracket after it (the negated class cannot step over one); the match is replaced by
  what stands between the two, and the scan goes on after the closing bracket.
\<close>

function unwrap_parens :: "ustring \<Rightarrow> ustring" where
  "unwrap_parens [] = []"
| "unwrap_parens (c # cs) =
     (if is_open c \<and> dropWhile (\<lambda>x. \<not> is_close x) cs \<noteq> []
      then takeWhile (\<lambda>x. \<not> is_close x) cs
             @ unwrap_parens (tl (dropWhile (\<lambda>x. \<not> is_close x) cs))
      else c # unwrap_parens cs)"
  by pat_completeness auto
termination
proof (relation "measure length")
  fix c :: uchar and cs :: ustring
  have "length (tl (dropWhile (\<lambda>x. \<not> is_close x) cs)) \<le> length cs"
    using length_dropWhile_le [of "\<lambda>x. \<not> is_close x" cs] by simp
  then show "(tl (dropWhile (\<lambda>x. \<not> is_close x) cs), c # cs) \<in> measure length"
    by simp
qed simp_all

text \<open>Line 79, \<^verbatim>\<open>re.sub(r"\s+", "", s)\<close>: every white-space character is dropped.\<close>

definition remove_ws :: "ustring \<Rightarrow> ustring" where
  "remove_ws s = filter (\<lambda>c. \<not> is_space c) s"

definition normalize_answer_for_match :: "ustring \<Rightarrow> ustring" where
  "normalize_answer_for_match s = remove_ws (unwrap_parens (py_strip (strip_label s)))"

section \<open>Fuzzy matcher: \<^verbatim>\<open>answers_match\<close>\<close>

text \<open>The class \<^verbatim>\<open>[U+4E00-U+9FA5]\<close> of ideographs and the class \<^verbatim>\<open>[a-zA-Z]\<close>.\<close>

definition is_kanji :: "uchar \<Rightarrow> bool" where
  "is_kanji c = (19968 \<le> c \<and> c \<le> 40869)"

definition is_latin :: "uchar \<Rightarrow> bool" where
  "is_latin c = ((97 \<le> c \<and> c \<le> 122) \<or> (65 \<le> c \<and> c \<le> 90))"

text \<open>
  Line 97, \<^verbatim>\<open>re.findall(r"[kanji]{2,}|[a-zA-Z]{2,}", r)\<close>: at each position the greedy run
  of ideographs is tried first, then the greedy run of Latin letters; a run of two or more
  is a token and the scan goes on behind it, otherwise the scan moves one character on.
\<close>

function find_tokens :: "ustring \<Rightarrow> ustring list" where
  "find_tokens [] = []"
| "find_tokens (c # cs) =
     (if is_kanji c \<and> 2 \<le> length (takeWhile is_kanji (c # cs))
      then takeWhile is_kanji (c # cs) # find_tokens (dropWhile is_kanji (c # cs))
      else if is_latin c \<and> 2 \<le> length (takeWhile is_latin (c # cs))
      then takeWhile is_latin (c # cs) # find_tokens (dropWhile is_latin (c # cs))
      else find_tokens cs)"
  by pat_completeness auto
termination
proof (relation "measure length")
  fix c :: uchar and cs :: ustring
  assume "is_kanji c \<and> 2 \<le> length (takeWhile is_kanji (c # cs))"
  then show "(dropWhile is_kanji (c # cs), c # cs) \<in> measure length"
    using length_dropWhile_le [of is_kanji cs] by simp
next
  fix c :: uchar and cs :: ustring
  assume "is_latin c \<and> 2 \<le> length (takeWhile is_latin (c # cs))"
  then show "(dropWhile is_latin (c # cs), c # cs) \<in> measure length"
    using length_dropWhile_le [of is_latin cs] by simp
qed simp_all

text \<open>
  Lines 82 to 99.  \<^verbatim>\<open>len(r) >= 0.5 * len(c)\<close> compares an integer with a float; half of a
  length is exact in binary floating point, and Python compares the two numbers exactly,
  so the test is \<open>length c \<le> 2 * length r\<close>.  \<^verbatim>\<open>bool(r_chars & c_chars)\<close> says that the
  two token sets share an element.
\<close>

definition answers_match :: "ustring \<Rightarrow> ustring \<Rightarrow> bool" where
  "answers_match row_ans cand_ans =
     (let r = normalize_answer_for_match row_ans;
          c = normalize_answer_for_match cand_ans
      in if r = [] \<or> c = [] then False
         else if r = c then True
         else if py_in r c then length c \<le> 2 * length r
         else if py_in c r then length r \<le> 2 * length c
         else set (find_tokens r) \<inter> set (find_tokens c) \<noteq> {})"

text \<open>
  An opening bracket that has a closing bracket somewhere behind it: exactly the strings
  that line 78 changes.
\<close>

fun has_paren_span :: "ustring \<Rightarrow> bool" where
  "has_paren_span [] = False"
| "has_paren_span (c # cs) =
     ((is_open c \<and> (\<exists>x \<in> set cs. is_close x)) \<or> has_paren_span cs)"

section \<open>Row resolver: the lookup inside \<^verbatim>\<open>replace_row\<close>\<close>

text \<open>
  A corpus record is the triple (problem, choices, answer) of line 148.  \<^verbatim>\<open>by_qnum\<close> maps
  (exam id, question number) to a list of records, \<^verbatim>\<open>by_exam\<close> maps an exam id to a list
  of (question number, problem, choices, answer); a key that was never appended to is
  absent.  Question numbers are Python integers.
\<close>

type_synonym entry = "ustring \<times> ustring \<times> ustring"
type_synonym by_qnum_map = "(ustring \<times> int) \<rightharpoonup> entry list"
type_synonym by_exam_map = "ustring \<rightharpoonup> (int \<times> entry) list"

text \<open>
  The two loops of lines 193 to 196 and 199 to 202: the first record whose answer matches
  overwrites the pair (prob, choices) and ends the loop; without a match the pair is kept.
\<close>

fun scan_candidates :: "ustring \<Rightarrow> entry list \<Rightarrow> ustring \<times> ustring \<Rightarrow> ustring \<times> ustring" where
  "scan_candidates row_ans [] pc = pc"
| "scan_candidates row_ans ((p, c, a) # rest) pc =
     (if answers_match row_ans a then (p, c) else scan_candidates row_ans rest pc)"

text \<open>
  Lines 190 to 202.  The second loop runs when \<^verbatim>\<open>not prob and exam in by_exam\<close>: the test
  is on the problem text found so far, not on whether the first loop found a record.
\<close>

definition resolve ::
  "by_qnum_map \<Rightarrow> by_exam_map \<Rightarrow> ustring \<Rightarrow> int \<Rightarrow> ustring \<Rightarrow> ustring \<times> ustring" where
  "resolve by_qnum by_exam exam q_num row_ans =
     (let candidates = (case by_qnum (exam, q_num) of None \<Rightarrow> [] | Some l \<Rightarrow> l);
          pc = scan_candidates row_ans candidates ([], [])
      in if fst pc = [] then
           (case by_exam exam of
              None \<Rightarrow> pc
            | Some l \<Rightarrow> scan_candidates row_ans (map snd l) pc)
         else pc)"

text \<open>
  The specification's reading of the resolver, for comparison: the first record of a list
  whose answer matches the row's answer.
\<close>

definition first_match :: "ustring \<Rightarrow> entry list \<Rightarrow> entry option" where
  "first_match row_ans cands = find (\<lambda>(p, c, a). answers_match row_ans a) cands"

section \<open>Lines, \<^verbatim>\<open>split\<close> and \<^verbatim>\<open>join\<close>\<close>

text \<open>
  \<^verbatim>\<open>re.split\<close> on a class of single characters, and \<^verbatim>\<open>s.split("\n")\<close>: the pieces
  between the separators, empty pieces included; the result is never the empty list.
\<close>

fun split_on :: "(uchar \<Rightarrow> bool) \<Rightarrow> ustring \<Rightarrow> ustring list" where
  "split_on d [] = [[]]"
| "split_on d (c # cs) =
     (if d c then [] # split_on d cs
      else (case split_on d cs of [] \<Rightarrow> [[c]] | l # ls \<Rightarrow> (c # l) # ls))"

definition split_lines :: "ustring \<Rightarrow> ustring list" where
  "split_lines s = split_on (\<lambda>c. c = NL) s"

text \<open>\<^verbatim>\<open>sep.join(parts)\<close>.\<close>

fun py_join :: "ustring \<Rightarrow> ustring list \<Rightarrow> ustring" where
  "py_join sep [] = []"
| "py_join sep [l] = l"
| "py_join sep (l # l' # ls) = l @ sep @ py_join sep (l' # ls)"

section \<open>The pre-pass of \<^verbatim>\<open>main\<close>: removing lines attached by an earlier run\<close>

text \<open>
  The two markers \<^verbatim>\<open>"- **MONDAIBUN** "\<close> and \<^verbatim>\<open>"- **SENTAKUSHI** "\<close> of lines 159, 161,
  174 and 175 (the Japanese words for problem text and for choices, three ideographs
  each).
\<close>

definition problem_marker :: ustring where
  "problem_marker = u ''- **'' @ [21839, 38988, 25991] @ u ''** ''"

definition choices_marker :: ustring where
  "choices_marker = u ''- **'' @ [36984, 25246, 32930] @ u ''** ''"

text \<open>
  Lines 174 and 175, \<^verbatim>\<open>re.sub(r"\n" + marker + r"[^\n]+", "", content)\<close>: scanning from the
  left, a line feed followed by the marker and at least one character other than a line
  feed is a match that runs to the end of that line; it is deleted and the scan goes on
  behind it.  Everything else is copied.
\<close>

function sub_attached :: "ustring \<Rightarrow> ustring \<Rightarrow> ustring" where
  "sub_attached marker [] = []"
| "sub_attached marker (c # cs) =
     (if c = NL \<and> prefix marker cs
         \<and> takeWhile (\<lambda>x. x \<noteq> NL) (drop (length marker) cs) \<noteq> []
      then sub_attached marker (dropWhile (\<lambda>x. x \<noteq> NL) (drop (length marker) cs))
      else c # sub_attached marker cs)"
  by pat_completeness auto
termination
proof (relation "measure (\<lambda>(m, s). length s)")
  fix marker :: ustring and c :: uchar and cs :: ustring
  have "length (dropWhile (\<lambda>x. x \<noteq> NL) (drop (length marker) cs))
        \<le> length (drop (length marker) cs)"
    by (rule length_dropWhile_le)
  then show "((marker, dropWhile (\<lambda>x. x \<noteq> NL) (drop (length marker) cs)), marker, c # cs)
             \<in> measure (\<lambda>(m, s). length s)"
    by simp
qed simp_all

definition strip_attached :: "ustring \<Rightarrow> ustring" where
  "strip_attached content = sub_attached choices_marker (sub_attached problem_marker content)"

text \<open>
  A line of one of the two exact forms that the pre-pass looks for: a marker followed by
  at least one more character.
\<close>

definition is_attached :: "ustring \<Rightarrow> ustring \<Rightarrow> bool" where
  "is_attached marker l = (prefix marker l \<and> length marker < length l)"

definition attached_line :: "ustring \<Rightarrow> bool" where
  "attached_line l = (is_attached problem_marker l \<or> is_attached choices_marker l)"

text \<open>The text behind the first line, as the list of its lines: each is led by a line feed.\<close>

definition tail_lines :: "ustring list \<Rightarrow> ustring" where
  "tail_lines ls = concat (map ((#) NL) ls)"

section \<open>Decimal digits\<close>

text \<open>
  \<^verbatim>\<open>\d\<close> in a \<^verbatim>\<open>str\<close> pattern matches every Unicode decimal digit, and \<^verbatim>\<open>int\<close> reads all
  of them.  The digits come in runs of ten consecutive code points, zero first; the table
  lists the zero of every run (Unicode 14.0, the version of CPython 3.11).  The length
  limit of \<^verbatim>\<open>int\<close> on strings of more than 4300 digits is a setting of the interpreter
  and is not modelled.
\<close>

definition digit_zeros :: "uchar list" where
  "digit_zeros =
     [48, 1632, 1776, 1984, 2406, 2534, 2662, 2790, 2918, 3046, 3174, 3302, 3430, 3558,
      3664, 3792, 3872, 4160, 4240, 6112, 6160, 6470, 6608, 6784, 6800, 6992, 7088, 7232,
      7248, 42528, 43216, 43264, 43472, 43504, 43600, 44016, 65296, 66720, 68912, 69734,
      69872, 69942, 70096, 70384, 70736, 70864, 71248, 71360, 71472, 71904, 72016, 72784,
      73040, 73120, 92768, 92864, 93008, 120782, 120792, 120802, 120812, 120822, 123200,
      123632, 125264, 130032]"

definition digit_val :: "uchar \<Rightarrow> nat option" where
  "digit_val c =
     (case find (\<lambda>z. z \<le> c \<and> c < z + 10) digit_zeros of
        None \<Rightarrow> None
      | Some z \<Rightarrow> Some (c - z))"

definition is_digit :: "uchar \<Rightarrow> bool" where
  "is_digit c = (digit_val c \<noteq> None)"

text \<open>\<^verbatim>\<open>int(ds)\<close> for a string of decimal digits.\<close>

definition int_of_digits :: "ustring \<Rightarrow> int" where
  "int_of_digits ds =
     foldl (\<lambda>n c. 10 * n + int (case digit_val c of None \<Rightarrow> 0 | Some v \<Rightarrow> v)) 0 ds"

section \<open>Small matchers\<close>

text \<open>
  Characters that the patterns name: number sign, vertical bar, asterisk, hyphen, and the
  ideograph \<^verbatim>\<open>MON\<close> (U+554F) with which every question reference begins.
\<close>

abbreviation HASH :: uchar where "HASH \<equiv> 35"
abbreviation BAR :: uchar where "BAR \<equiv> 124"
abbreviation STAR :: uchar where "STAR \<equiv> 42"
abbreviation DASH :: uchar where "DASH \<equiv> 45"
abbreviation MON :: uchar where "MON \<equiv> 21839"

text \<open>A literal at the start of a string: the text behind it.\<close>

definition lit :: "ustring \<Rightarrow> ustring \<Rightarrow> ustring option" where
  "lit w s = (if prefix w s then Some (drop (length w) s) else None)"

text \<open>
  \<^verbatim>\<open>re.search\<close>: the pattern is tried at every position from the left, the end of the
  string included, and the first success is the result.
\<close>

fun search_first :: "(ustring \<Rightarrow> 'a option) \<Rightarrow> ustring \<Rightarrow> 'a option" where
  "search_first f [] = f []"
| "search_first f (c # cs) =
     (case f (c # cs) of Some r \<Rightarrow> Some r | None \<Rightarrow> search_first f cs)"

text \<open>The same for a pattern without groups: the position of the first match.\<close>

fun search_pos :: "(ustring \<Rightarrow> bool) \<Rightarrow> ustring \<Rightarrow> nat option" where
  "search_pos p [] = (if p [] then Some 0 else None)"
| "search_pos p (c # cs) =
     (if p (c # cs) then Some 0 else map_option Suc (search_pos p cs))"

text \<open>The part of a run of white space behind its last line feed.\<close>

definition after_last_nl :: "ustring \<Rightarrow> ustring" where
  "after_last_nl w = rev (takeWhile (\<lambda>x. x \<noteq> NL) (rev w))"

section \<open>\<^verbatim>\<open>exam_id_from_filename\<close> and \<^verbatim>\<open>parse_question_numbers\<close>\<close>

text \<open>
  Line 13, \<^verbatim>\<open>re.match(r"(\d{4})(HON|SAI)SHI KEN", name)\<close>: four digits, the ideograph
  \<^verbatim>\<open>HON\<close> (26412) or \<^verbatim>\<open>SAI\<close> (20877), then \<^verbatim>\<open>SHI\<close> (35430) and \<^verbatim>\<open>KEN\<close> (39443), at the
  start of the name.  The result is the four digits, the session ideograph and \<^verbatim>\<open>SHI\<close>;
  the empty string stands for no match.
\<close>

definition exam_id_from_filename :: "ustring \<Rightarrow> ustring" where
  "exam_id_from_filename name =
     (if 7 \<le> length name \<and> list_all is_digit (take 4 name)
         \<and> (name ! 4 = 26412 \<or> name ! 4 = 20877) \<and> name ! 5 = 35430 \<and> name ! 6 = 39443
      then take 5 name @ [35430]
      else [])"

text \<open>The delimiters of line 22: katakana middle dot (12539) and ideographic comma (12289).\<close>

definition is_delim :: "uchar \<Rightarrow> bool" where
  "is_delim c = (c = 12539 \<or> c = 12289)"

text \<open>
  Line 23, \<^verbatim>\<open>re.search(r"MON(\d+)", part)\<close>: the digits behind the first \<^verbatim>\<open>MON\<close> that has
  a digit behind it.
\<close>

fun q_number :: "ustring \<Rightarrow> ustring option" where
  "q_number [] = None"
| "q_number (c # cs) =
     (if c = MON \<and> takeWhile is_digit cs \<noteq> [] then Some (takeWhile is_digit cs)
      else q_number cs)"

text \<open>
  Lines 19 to 26: the heading is split at the delimiters and every part that holds a
  \<^verbatim>\<open>MON\<close> with digits gives one number; the other parts give nothing.
\<close>

definition parse_question_numbers :: "ustring \<Rightarrow> int list" where
  "parse_question_numbers heading =
     concat (map (\<lambda>part. case q_number part of None \<Rightarrow> [] | Some ds \<Rightarrow> [int_of_digits ds])
                 (split_on is_delim heading))"

section \<open>Block extractor: \<^verbatim>\<open>extract_problem_choices_answer\<close>\<close>

text \<open>
  The look-ahead \<^verbatim>\<open>(?=\n#{2,4}\s|\n---|\Z)\<close> that ends a section: a line feed with two to
  four number signs and a white-space character, a line feed with three hyphens, or the
  end of the block.  Five or more number signs do not end a section.
\<close>

definition section_end :: "ustring \<Rightarrow> bool" where
  "section_end s =
     (case s of
        [] \<Rightarrow> True
      | c # cs \<Rightarrow>
          c = NL \<and>
          (prefix [DASH, DASH, DASH] cs \<or>
           (let h = length (takeWhile (\<lambda>x. x = HASH) cs)
            in 2 \<le> h \<and> h \<le> 4 \<and> drop h cs \<noteq> [] \<and> is_space (hd (drop h cs)))))"

text \<open>
  The lazy group \<^verbatim>\<open>(.+?)\<close> under \<^verbatim>\<open>DOTALL\<close> in front of the look-ahead: at least one
  character, then as few as possible until the look-ahead holds.
\<close>

fun lazy_until :: "ustring \<Rightarrow> ustring" where
  "lazy_until [] = []"
| "lazy_until (c # cs) = c # (if section_end cs then [] else lazy_until cs)"

text \<open>
  \<^verbatim>\<open>\s*\n+(.+?)(?=...)\<close> behind a sub-heading; the result is group 1.  Let \<open>w\<close> be the run
  of white space at the start and \<open>r\<close> the text behind it.  \<^verbatim>\<open>\s*\<close> is greedy and gives
  back until a line feed follows, so \<^verbatim>\<open>\n+\<close> takes the last line feed of \<open>w\<close> that still
  leaves a character for the group; the group begins behind that line feed.  When \<open>w\<close>
  holds no such line feed the pattern fails here.
\<close>

definition body_after :: "ustring \<Rightarrow> ustring option" where
  "body_after s =
     (let w = takeWhile is_space s; r = dropWhile is_space s
      in if r \<noteq> [] then
           (if NL \<in> set w then Some (after_last_nl w @ lazy_until r) else None)
         else if w \<noteq> [] \<and> NL \<in> set (butlast w)
         then Some (after_last_nl (butlast w) @ [last w])
         else None)"

text \<open>
  \<^verbatim>\<open>#{3,4}\s*WORD\<close> at the start of a string: the text behind it.  The run of number signs
  at this position must have length three or four; inside a longer run the search finds
  the position where four are left.
\<close>

definition sub_heading :: "ustring \<Rightarrow> ustring \<Rightarrow> ustring option" where
  "sub_heading w s =
     (let h = length (takeWhile (\<lambda>x. x = HASH) s)
      in if 3 \<le> h \<and> h \<le> 4 then lit w (dropWhile is_space (drop h s)) else None)"

text \<open>\<^verbatim>\<open>[((]WORD[))]\<close>: a word between an opening and a closing bracket of either width.\<close>

definition bracketed :: "ustring \<Rightarrow> ustring \<Rightarrow> ustring option" where
  "bracketed w s =
     (case s of
        [] \<Rightarrow> None
      | c # cs \<Rightarrow>
          if is_open c then
            (case lit w cs of
               None \<Rightarrow> None
             | Some r \<Rightarrow>
                 (case r of [] \<Rightarrow> None | d # ds \<Rightarrow> if is_close d then Some ds else None))
          else None)"

text \<open>
  The sub-heading words: \<^verbatim>\<open>MONDAIBUN\<close> (problem text), \<^verbatim>\<open>ZENBUN\<close> (full text), \<^verbatim>\<open>YOUSHI\<close>
  (abridged), \<^verbatim>\<open>SENTAKUSHI\<close> (choices) and \<^verbatim>\<open>SEIKAI\<close> (correct answer).
\<close>

definition w_problem :: ustring where "w_problem = [21839, 38988, 25991]"
definition w_full :: ustring where "w_full = [20840, 25991]"
definition w_abridged :: ustring where "w_abridged = [35201, 26088]"
definition w_choices :: ustring where "w_choices = [36984, 25246, 32930]"
definition w_answer :: ustring where "w_answer = [27491, 35299]"

text \<open>
  One pattern of lines 38 to 40 or 61 at one position: the sub-heading, the bracketed
  qualifier if the pattern has one, and the body.
\<close>

definition section_at :: "ustring \<Rightarrow> ustring option \<Rightarrow> ustring \<Rightarrow> ustring option" where
  "section_at w q s =
     (case sub_heading w s of
        None \<Rightarrow> None
      | Some r \<Rightarrow>
          (case q of
             None \<Rightarrow> body_after r
           | Some qw \<Rightarrow> (case bracketed qw r of None \<Rightarrow> None | Some r' \<Rightarrow> body_after r')))"

text \<open>\<^verbatim>\<open>s.replace("\n", " ")\<close>.\<close>

definition nl_to_space :: "ustring \<Rightarrow> ustring" where
  "nl_to_space s = map (\<lambda>c. if c = NL then 32 else c) s"

text \<open>
  Lines 37 to 45: the three patterns in their order; the first that matches anywhere in
  the block gives the problem text (even when it is empty after \<^verbatim>\<open>strip\<close>).
\<close>

definition extract_problem :: "ustring \<Rightarrow> ustring" where
  "extract_problem block =
     (case search_first (section_at w_problem (Some w_full)) block of
        Some g \<Rightarrow> nl_to_space (py_strip g)
      | None \<Rightarrow>
          (case search_first (section_at w_problem (Some w_abridged)) block of
             Some g \<Rightarrow> nl_to_space (py_strip g)
           | None \<Rightarrow>
               (case search_first (section_at w_problem None) block of
                  Some g \<Rightarrow> nl_to_space (py_strip g)
                | None \<Rightarrow> [])))"

text \<open>The separators \<^verbatim>\<open>[..,::]\<close> that may follow a choice label (no white space here).\<close>

definition is_choice_sep :: "uchar \<Rightarrow> bool" where
  "is_choice_sep c = (c = 46 \<or> c = 65294 \<or> c = 12289 \<or> c = 58 \<or> c = 65306)"

text \<open>
  One round of the repeated group of line 49,
  \<^verbatim>\<open>-\s*\*\*[label][sep]?\*\*[^\n]*\n?\<close>: the text behind it.
\<close>

definition choice_item :: "ustring \<Rightarrow> ustring option" where
  "choice_item s =
     (case lit [DASH] s of
        None \<Rightarrow> None
      | Some s1 \<Rightarrow>
          (case lit [STAR, STAR] (dropWhile is_space s1) of
             None \<Rightarrow> None
           | Some s2 \<Rightarrow>
               (case s2 of
                  [] \<Rightarrow> None
                | l # s3 \<Rightarrow>
                    if is_label l then
                      (case (if s3 \<noteq> [] \<and> is_choice_sep (hd s3) \<and> prefix [STAR, STAR] (tl s3)
                             then Some (drop 3 s3) else lit [STAR, STAR] s3) of
                         None \<Rightarrow> None
                       | Some s4 \<Rightarrow>
                           (case dropWhile (\<lambda>x. x \<noteq> NL) s4 of
                              [] \<Rightarrow> Some []
                            | n # s5 \<Rightarrow> Some s5))
                    else None)))"

lemma lit_length: "lit w s = Some r \<Longrightarrow> length r + length w = length s"
  by (auto simp: lit_def prefix_def split: if_splits)

lemma choice_item_shorter: "choice_item s = Some r \<Longrightarrow> length r < length s"
proof -
  assume a: "choice_item s = Some r"
  from a obtain s1 where s1: "lit [DASH] s = Some s1"
    by (auto simp: choice_item_def split: option.splits)
  from a s1 obtain s2 where s2: "lit [STAR, STAR] (dropWhile is_space s1) = Some s2"
    by (auto simp: choice_item_def split: option.splits)
  from a s1 s2 obtain l s3 where s3: "s2 = l # s3"
    by (auto simp: choice_item_def split: option.splits list.splits)
  from a s1 s2 s3 obtain s4 where
    s4: "(if s3 \<noteq> [] \<and> is_choice_sep (hd s3) \<and> prefix [STAR, STAR] (tl s3)
          then Some (drop 3 s3) else lit [STAR, STAR] s3) = Some s4"
    by (auto simp: choice_item_def split: option.splits if_splits)
  have r: "length r \<le> length (dropWhile (\<lambda>x. x \<noteq> NL) s4)"
    using a s1 s2 s3 s4 by (auto simp: choice_item_def split: option.splits list.splits if_splits)
  have "length s4 \<le> length s3"
    using s4 lit_length [of "[STAR, STAR]" s3 s4] by (auto split: if_splits)
  moreover have "length s2 \<le> length s1"
    using lit_length [OF s2] length_dropWhile_le [of is_space s1] by simp
  moreover have "length s1 < length s" using lit_length [OF s1] by simp
  moreover have "length (dropWhile (\<lambda>x. x \<noteq> NL) s4) \<le> length s4" by (rule length_dropWhile_le)
  ultimately show ?thesis using r s3 by simp
qed

text \<open>
  The repetition \<^verbatim>\<open>(?:...)+\<close> of line 49 is greedy and nothing follows it in the pattern:
  rounds are taken as long as one matches.  The result is the text behind the last round.
\<close>

function choice_items :: "ustring \<Rightarrow> ustring" where
  "choice_items s = (case choice_item s of None \<Rightarrow> s | Some r \<Rightarrow> choice_items r)"
  by pat_completeness auto
termination
  by (relation "measure length") (auto dest: choice_item_shorter)

declare choice_items.simps [simp del]

text \<open>
  Line 49 at one position: the sub-heading, \<^verbatim>\<open>\s*\n+\<close> (the run of white space behind the
  heading must end in a line feed, because the group begins with a hyphen), and at least
  one round of the group.  The result is group 1, the text of all rounds.
\<close>

definition choices_at :: "ustring \<Rightarrow> ustring option" where
  "choices_at s =
     (case sub_heading w_choices s of
        None \<Rightarrow> None
      | Some r \<Rightarrow>
          (let w = takeWhile is_space r; b = dropWhile is_space r
           in if w \<noteq> [] \<and> last w = NL \<and> choice_item b \<noteq> None
              then Some (take (length b - length (choice_items b)) b)
              else None))"

text \<open>
  Lines 55 to 57, the body of the loop over the matched lines: a line that begins with
  \<^verbatim>\<open>"- "\<close> after \<^verbatim>\<open>strip\<close> loses these two characters and the white space around the
  rest; every other line is dropped.  Nothing else is removed: the bold label stays.
\<close>

definition keep_line :: "ustring \<Rightarrow> ustring list" where
  "keep_line line =
     (if prefix (u ''- '') (py_strip line) then [py_strip (drop 2 (py_strip line))] else [])"

text \<open>Lines 52 to 57 and 69: the kept lines are joined with \<^verbatim>\<open>" / "\<close>.\<close>

definition choice_lines :: "ustring \<Rightarrow> ustring list" where
  "choice_lines g = concat (map keep_line (split_lines (py_strip g)))"

definition extract_choices :: "ustring \<Rightarrow> ustring" where
  "extract_choices block =
     (case search_first choices_at block of
        None \<Rightarrow> []
      | Some g \<Rightarrow> py_join (u '' / '') (choice_lines g))"

text \<open>\<^verbatim>\<open>s.replace("**", "")\<close>: every pair of asterisks, found from the left, is removed.\<close>

fun remove_bold :: "ustring \<Rightarrow> ustring" where
  "remove_bold (a # b # cs) =
     (if a = STAR \<and> b = STAR then remove_bold cs else a # remove_bold (b # cs))"
| "remove_bold s = s"

text \<open>\<^verbatim>\<open>re.sub(r"\s+", " ", s)\<close>: every run of white space becomes one space.\<close>

function collapse_ws :: "ustring \<Rightarrow> ustring" where
  "collapse_ws [] = []"
| "collapse_ws (c # cs) =
     (if is_space c then 32 # collapse_ws (dropWhile is_space cs) else c # collapse_ws cs)"
  by pat_completeness auto
termination
proof (relation "measure length")
  fix c :: uchar and cs :: ustring
  show "(dropWhile is_space cs, c # cs) \<in> measure length"
    using length_dropWhile_le [of is_space cs] by simp
qed simp_all

text \<open>Lines 60 to 67.\<close>

definition extract_answer :: "ustring \<Rightarrow> ustring" where
  "extract_answer block =
     (case search_first (section_at w_answer None) block of
        None \<Rightarrow> []
      | Some g \<Rightarrow> collapse_ws (py_strip (remove_bold (py_strip g))))"

text \<open>
  Lines 29 to 70.  The source takes the text and the two ends of the block and begins
  with \<^verbatim>\<open>block = text[start:end]\<close>; here the block itself is the argument.
\<close>

definition extract_problem_choices_answer :: "ustring \<Rightarrow> entry" where
  "extract_problem_choices_answer block =
     (extract_problem block, extract_choices block, extract_answer block)"

section \<open>Corpus indexer: \<^verbatim>\<open>build_lookup\<close>\<close>

text \<open>
  The number list \<^verbatim>\<open>MON\d+(?:[delim]MON?\d+)*\<close> of line 128.  After the first reference,
  rounds of a delimiter, an optional \<^verbatim>\<open>MON\<close> and digits are taken while they match (what
  must follow the list is white space, a bracket or the end of a line, none of which a
  shorter list leaves in front, so the greedy reading is the only one).  The result is the
  text of the rounds and the text behind them.
\<close>

function num_more :: "ustring \<Rightarrow> ustring \<times> ustring" where
  "num_more [] = ([], [])"
| "num_more (c # cs) =
     (let q = (if prefix [MON] cs then [MON] else []);
          r = drop (length q) cs
      in if is_delim c \<and> takeWhile is_digit r \<noteq> []
         then (case num_more (dropWhile is_digit r) of
                 (g, rest) \<Rightarrow> (c # q @ takeWhile is_digit r @ g, rest))
         else ([], c # cs))"
  by pat_completeness auto
termination
proof (relation "measure length")
  fix c :: uchar and cs q r :: ustring
  assume "r = drop (length q) cs"
  then have "length r \<le> length cs" by simp
  then show "(dropWhile is_digit r, c # cs) \<in> measure length"
    using length_dropWhile_le [of is_digit r] by simp
qed simp_all

definition num_list :: "ustring \<Rightarrow> (ustring \<times> ustring) option" where
  "num_list s =
     (case s of
        [] \<Rightarrow> None
      | c # cs \<Rightarrow>
          if c = MON \<and> takeWhile is_digit cs \<noteq> []
          then (case num_more (dropWhile is_digit cs) of
                  (g, rest) \<Rightarrow> Some (c # takeWhile is_digit cs @ g, rest))
          else None)"

text \<open>
  \<^verbatim>\<open>\s*$\<close> under \<^verbatim>\<open>MULTILINE\<close>, at the start of a string: the text behind the match.  The
  run of white space is taken whole when it reaches the end of the text; otherwise the
  match must stop in front of a line feed, and being greedy it stops in front of the last
  line feed of the run.
\<close>

definition line_end :: "ustring \<Rightarrow> ustring option" where
  "line_end s =
     (let w = takeWhile is_space s; r = dropWhile is_space s
      in if r = [] then Some []
         else if NL \<in> set w then Some (NL # after_last_nl w @ r)
         else None)"

text \<open>
  The tail \<^verbatim>\<open>\s*(?:[((][^))]*[))])?\s*$\<close> of line 128.  The bracketed note can only begin
  behind the whole run of white space; it is tried first, and when the line does not end
  behind it the pattern is tried without it.
\<close>

definition heading_tail :: "ustring \<Rightarrow> ustring option" where
  "heading_tail s =
     (let r = dropWhile is_space s;
          d = dropWhile (\<lambda>x. \<not> is_close x) (tl r)
      in if r \<noteq> [] \<and> is_open (hd r) \<and> d \<noteq> [] \<and> line_end (tl d) \<noteq> None
         then line_end (tl d)
         else line_end s)"

text \<open>
  Line 128 at the start of a line: two to four number signs (a longer run fails), white
  space, the number list and the tail.  The result is group 1 and the text behind the
  match, \<^verbatim>\<open>text[m.end():]\<close>.
\<close>

definition heading_at :: "ustring \<Rightarrow> (ustring \<times> ustring) option" where
  "heading_at s =
     (let h = length (takeWhile (\<lambda>x. x = HASH) s)
      in if 2 \<le> h \<and> h \<le> 4 \<and> takeWhile is_space (drop h s) \<noteq> []
         then (case num_list (dropWhile is_space (drop h s)) of
                 None \<Rightarrow> None
               | Some (g, r) \<Rightarrow>
                   (case heading_tail r of None \<Rightarrow> None | Some rest \<Rightarrow> Some (g, rest)))
         else None)"

lemma num_more_length: "num_more s = (g, rest) \<Longrightarrow> length rest \<le> length s"
proof (induction s arbitrary: g rest rule: num_more.induct)
  case 1
  then show ?case by simp
next
  case (2 c cs)
  define q where "q = (if prefix [MON] cs then [MON] else [])"
  define r where "r = drop (length q) cs"
  show ?case
  proof (cases "is_delim c \<and> takeWhile is_digit r \<noteq> []")
    case True
    obtain g' rest' where nm: "num_more (dropWhile is_digit r) = (g', rest')"
      by (cases "num_more (dropWhile is_digit r)") auto
    have "length rest' \<le> length (dropWhile is_digit r)"
      using "2.IH" [OF q_def r_def True nm] .
    moreover have "rest = rest'"
      using "2.prems" True nm by (simp add: Let_def q_def [symmetric] r_def [symmetric])
    moreover have "length (dropWhile is_digit r) \<le> length cs"
      using length_dropWhile_le [of is_digit r] by (simp add: r_def)
    ultimately show ?thesis by simp
  next
    case False
    then have "rest = c # cs"
      using "2.prems" by (auto simp: Let_def q_def [symmetric] r_def [symmetric])
    then show ?thesis by simp
  qed
qed

lemma num_list_shorter: "num_list s = Some (g, rest) \<Longrightarrow> length rest < length s"
proof -
  assume a: "num_list s = Some (g, rest)"
  then obtain c cs where s: "s = c # cs" by (cases s) (auto simp: num_list_def)
  obtain g' rest' where nm: "num_more (dropWhile is_digit cs) = (g', rest')"
    by (cases "num_more (dropWhile is_digit cs)") auto
  have "rest = rest'" using a s nm by (auto simp: num_list_def split: if_splits)
  moreover have "length rest' \<le> length (dropWhile is_digit cs)" using nm by (rule num_more_length)
  moreover have "length (dropWhile is_digit cs) \<le> length cs" by (rule length_dropWhile_le)
  ultimately show ?thesis using s by simp
qed

lemma after_last_nl_shorter: "NL \<in> set w \<Longrightarrow> length (after_last_nl w) < length w"
proof -
  assume a: "NL \<in> set w"
  define t where "t = takeWhile (\<lambda>x. x \<noteq> NL) (rev w)"
  define d where "d = dropWhile (\<lambda>x. x \<noteq> NL) (rev w)"
  have "d \<noteq> []" using a by (simp add: d_def dropWhile_eq_Nil_conv)
  then have "0 < length d" by simp
  moreover have "length t + length d = length (rev w)"
    unfolding t_def d_def by (metis length_append takeWhile_dropWhile_id)
  moreover have "length (after_last_nl w) = length t"
    by (simp add: after_last_nl_def t_def)
  ultimately show ?thesis using length_rev [of w] by linarith
qed

lemma line_end_length: "line_end s = Some rest \<Longrightarrow> length rest \<le> length s"
proof -
  assume a: "line_end s = Some rest"
  have sp: "length (takeWhile is_space s) + length (dropWhile is_space s) = length s"
    by (metis length_append takeWhile_dropWhile_id)
  show ?thesis
  proof (cases "dropWhile is_space s = []")
    case True
    then show ?thesis using a by (simp add: line_end_def)
  next
    case False
    then have nl: "NL \<in> set (takeWhile is_space s)"
      and r: "rest = NL # after_last_nl (takeWhile is_space s) @ dropWhile is_space s"
      using a by (auto simp: line_end_def Let_def split: if_splits)
    show ?thesis using after_last_nl_shorter [OF nl] sp by (simp add: r)
  qed
qed

lemma heading_tail_length: "heading_tail s = Some rest \<Longrightarrow> length rest \<le> length s"
proof -
  assume a: "heading_tail s = Some rest"
  define r where "r = dropWhile is_space s"
  define d where "d = dropWhile (\<lambda>x. \<not> is_close x) (tl r)"
  have e: "heading_tail s =
           (if r \<noteq> [] \<and> is_open (hd r) \<and> d \<noteq> [] \<and> line_end (tl d) \<noteq> None
            then line_end (tl d) else line_end s)"
    unfolding heading_tail_def Let_def r_def d_def by (rule refl)
  show ?thesis
  proof (cases "r \<noteq> [] \<and> is_open (hd r) \<and> d \<noteq> [] \<and> line_end (tl d) \<noteq> None")
    case True
    then have "line_end (tl d) = Some rest" using a by (simp add: e)
    then have "length rest \<le> length (tl d)" by (rule line_end_length)
    moreover have "length d \<le> length (tl r)" unfolding d_def by (rule length_dropWhile_le)
    moreover have "length r \<le> length s" unfolding r_def by (rule length_dropWhile_le)
    ultimately show ?thesis by simp
  next
    case False
    then have "line_end s = Some rest" using a by (simp only: e if_False)
    then show ?thesis by (rule line_end_length)
  qed
qed

lemma heading_at_shorter: "heading_at s = Some (g, rest) \<Longrightarrow> length rest < length s"
proof -
  assume a: "heading_at s = Some (g, rest)"
  define h where "h = length (takeWhile (\<lambda>x. x = HASH) s)"
  from a have h: "2 \<le> h" "h \<le> length s"
    by (auto simp: heading_at_def Let_def h_def [symmetric] split: if_splits)
      (simp add: h_def length_takeWhile_le)
  from a obtain g' r where nl: "num_list (dropWhile is_space (drop h s)) = Some (g', r)"
    and ht: "heading_tail r = Some rest"
    by (auto simp: heading_at_def Let_def h_def [symmetric] split: if_splits option.splits)
  have "length rest \<le> length r" using ht by (rule heading_tail_length)
  moreover have "length r < length (dropWhile is_space (drop h s))" using nl by (rule num_list_shorter)
  moreover have "length (dropWhile is_space (drop h s)) \<le> length (drop h s)"
    by (rule length_dropWhile_le)
  ultimately show ?thesis using h by simp
qed

text \<open>
  \<^verbatim>\<open>re.finditer\<close> with line 128 under \<^verbatim>\<open>MULTILINE\<close>: the pattern is tried where a line
  begins (at the start of the text and behind every line feed); behind a match the scan
  goes on with the text that follows it.  That text is empty or begins with a line feed,
  so no heading begins right there and the flag is \<open>False\<close>.
\<close>

function find_headings :: "bool \<Rightarrow> ustring \<Rightarrow> (ustring \<times> ustring) list" where
  "find_headings bol [] = []"
| "find_headings bol (c # cs) =
     (case (if bol then heading_at (c # cs) else None) of
        Some (g, rest) \<Rightarrow> (g, rest) # find_headings False rest
      | None \<Rightarrow> find_headings (c = NL) cs)"
  by pat_completeness auto
termination
  by (relation "measure (\<lambda>(b, s). length s)") (auto split: if_splits dest: heading_at_shorter)

text \<open>
  Line 137, \<^verbatim>\<open>\n^#{2,4}\s+MON\d\<close>, and line 139, \<^verbatim>\<open>\n^#{2,3}\s+\<close>, at the start of a
  string.
\<close>

definition q_heading_nl :: "ustring \<Rightarrow> bool" where
  "q_heading_nl s =
     (case s of
        [] \<Rightarrow> False
      | c # cs \<Rightarrow>
          (let h = length (takeWhile (\<lambda>x. x = HASH) cs);
               r = dropWhile is_space (drop h cs)
           in c = NL \<and> 2 \<le> h \<and> h \<le> 4 \<and> takeWhile is_space (drop h cs) \<noteq> []
              \<and> 2 \<le> length r \<and> hd r = MON \<and> is_digit (hd (tl r))))"

definition any_heading_nl :: "ustring \<Rightarrow> bool" where
  "any_heading_nl s =
     (case s of
        [] \<Rightarrow> False
      | c # cs \<Rightarrow>
          (let h = length (takeWhile (\<lambda>x. x = HASH) cs)
           in c = NL \<and> 2 \<le> h \<and> h \<le> 3 \<and> drop h cs \<noteq> [] \<and> is_space (hd (drop h cs))))"

text \<open>
  Lines 137 to 140: the block runs to the next question heading; without one, to the next
  heading of two or three number signs; without one, to the end of the text.
\<close>

definition block_of :: "ustring \<Rightarrow> ustring" where
  "block_of rest =
     (case search_pos q_heading_nl rest of
        Some i \<Rightarrow> take i rest
      | None \<Rightarrow>
          (case search_pos any_heading_nl rest of
             Some i \<Rightarrow> take i rest
           | None \<Rightarrow> rest))"

text \<open>
  The two dictionaries under construction.  \<^verbatim>\<open>by_qnum[key].append(entry)\<close> on a
  \<^verbatim>\<open>defaultdict(list)\<close>: a missing key starts from the empty list.
\<close>

type_synonym lookup = "by_qnum_map \<times> by_exam_map"

definition append_at :: "('k \<rightharpoonup> 'v list) \<Rightarrow> 'k \<Rightarrow> 'v \<Rightarrow> ('k \<rightharpoonup> 'v list)" where
  "append_at m k v = m(k \<mapsto> (case m k of None \<Rightarrow> [] | Some l \<Rightarrow> l) @ [v])"

text \<open>Lines 146 to 150, one round of the loop over the question numbers.\<close>

definition add_entry :: "ustring \<Rightarrow> entry \<Rightarrow> lookup \<Rightarrow> int \<Rightarrow> lookup" where
  "add_entry exam_id e idx qn =
     (case e of (problem, choices, answer) \<Rightarrow>
        if problem \<noteq> [] \<or> choices \<noteq> []
        then (append_at (fst idx) (exam_id, qn) e, append_at (snd idx) exam_id (qn, e))
        else idx)"

text \<open>Lines 132 to 150, the body of the loop over the headings of one document.\<close>

definition add_heading :: "ustring \<Rightarrow> lookup \<Rightarrow> ustring \<times> ustring \<Rightarrow> lookup" where
  "add_heading exam_id idx m =
     (let q_nums = parse_question_numbers (fst m)
      in if q_nums = [] then idx
         else foldl (add_entry exam_id (extract_problem_choices_answer (block_of (snd m))))
                    idx q_nums)"

text \<open>
  A document of the corpus: the name of the file and its text.  \<^verbatim>\<open>build_lookup\<close> reads the
  files that \<^verbatim>\<open>rglob("*.md")\<close> finds under the exam directory, in sorted order; this list
  is the argument of the model.
\<close>

type_synonym document = "ustring \<times> ustring"

text \<open>
  \<^verbatim>\<open>Path.stem\<close>: the name without its last suffix; a name whose only dot is the first or
  the last character has no suffix.
\<close>

definition py_stem :: "ustring \<Rightarrow> ustring" where
  "py_stem name =
     (let suffix = takeWhile (\<lambda>c. c \<noteq> 46) (rev name)
      in if 46 \<in> set name \<and> suffix \<noteq> [] \<and> length suffix + 1 < length name
         then take (length name - length suffix - 1) name
         else name)"

text \<open>
  The three file names of line 116 (the list of figure questions, the read-me and the
  frequency document itself) and the marker \<^verbatim>\<open>MONDAI KAISETSU\<close> of line 118.
\<close>

definition excluded_names :: "ustring list" where
  "excluded_names =
     [[22259, 12434, 21547, 12416, 21839, 38988, 19968, 35239] @ u ''.md'',
      u ''README.md'',
      [35352, 21495, 21839, 38988, 38971, 24230, 38918] @ u ''.md'']"

definition w_explanation :: ustring where
  "w_explanation = [21839, 38988, 35299, 35500]"

text \<open>Lines 116 to 150, the body of the loop over the documents.\<close>

definition add_document :: "lookup \<Rightarrow> document \<Rightarrow> lookup" where
  "add_document idx doc =
     (case doc of (name, text) \<Rightarrow>
        if name \<in> set excluded_names then idx
        else if \<not> py_in w_explanation name then idx
        else if exam_id_from_filename (py_stem name) = [] then idx
        else foldl (add_heading (exam_id_from_filename (py_stem name))) idx
                   (find_headings True text))"

definition build_lookup :: "document list \<Rightarrow> lookup" where
  "build_lookup docs = foldl add_document (Map.empty, Map.empty) docs"

section \<open>Rewriting the frequency document: \<^verbatim>\<open>format_problem_block\<close>, \<^verbatim>\<open>replace_row\<close>, \<^verbatim>\<open>main\<close>\<close>

text \<open>Lines 155 to 164.\<close>

definition format_problem_block :: "ustring \<Rightarrow> ustring \<Rightarrow> ustring" where
  "format_problem_block problem choices =
     py_join [NL]
       ((if problem \<noteq> [] then [problem_marker @ problem] else [])
        @ (if choices \<noteq> [] then [choices_marker @ choices] else []))"

text \<open>\<^verbatim>\<open>202\d(?:HON|SAI)SHI\<close> and \<^verbatim>\<open>MON\d+\<close> at the start of a string: the token and the rest.\<close>

definition exam_token :: "ustring \<Rightarrow> (ustring \<times> ustring) option" where
  "exam_token s =
     (if 6 \<le> length s \<and> take 3 s = u ''202'' \<and> is_digit (s ! 3)
         \<and> (s ! 4 = 26412 \<or> s ! 4 = 20877) \<and> s ! 5 = 35430
      then Some (take 6 s, drop 6 s)
      else None)"

definition q_token :: "ustring \<Rightarrow> (ustring \<times> ustring) option" where
  "q_token s =
     (case s of
        [] \<Rightarrow> None
      | c # cs \<Rightarrow>
          if c = MON \<and> takeWhile is_digit cs \<noteq> []
          then Some (c # takeWhile is_digit cs, dropWhile is_digit cs)
          else None)"

text \<open>
  Line 210 at the start of a line: the three cells between vertical bars.  The white space
  between the parts is forced (each part begins with a character that is not white
  space).  The third cell \<open>t\<close> is everything up to the next bar and must not be empty; the
  bar must end the line.  Group 3 is \<open>t\<close> without its leading white space, or its last
  character when \<open>t\<close> is white space only.  The result is the whole match, the three groups
  and the text behind the match.
\<close>

definition row_match_at ::
  "ustring \<Rightarrow> (ustring \<times> ustring \<times> ustring \<times> ustring \<times> ustring) option" where
  "row_match_at s =
     (case lit [BAR] s of
        None \<Rightarrow> None
      | Some s1 \<Rightarrow>
     (case exam_token (dropWhile is_space s1) of
        None \<Rightarrow> None
      | Some (g1, s2) \<Rightarrow>
     (case lit [BAR] (dropWhile is_space s2) of
        None \<Rightarrow> None
      | Some s3 \<Rightarrow>
     (case q_token (dropWhile is_space s3) of
        None \<Rightarrow> None
      | Some (g2, s4) \<Rightarrow>
     (case lit [BAR] (dropWhile is_space s4) of
        None \<Rightarrow> None
      | Some s5 \<Rightarrow>
          (let t = takeWhile (\<lambda>x. x \<noteq> BAR) s5;
               r = dropWhile (\<lambda>x. x \<noteq> BAR) s5
           in if t \<noteq> [] \<and> r \<noteq> [] \<and> (tl r = [] \<or> hd (tl r) = NL)
              then Some (take (length s - length (tl r)) s, g1, g2,
                         (if dropWhile is_space t \<noteq> [] then dropWhile is_space t else [last t]),
                         tl r)
              else None))))))"

text \<open>
  Lines 179 to 207.  The groups are stripped, the question number is read from the second
  cell, the record is looked up and, when there is something to attach, the block follows
  the unchanged line after a line feed.
\<close>

definition replace_row ::
  "by_qnum_map \<Rightarrow> by_exam_map \<Rightarrow> ustring \<Rightarrow> ustring \<Rightarrow> ustring \<Rightarrow> ustring \<Rightarrow> ustring" where
  "replace_row by_qnum by_exam full_line g1 g2 g3 =
     (case q_number (py_strip g2) of
        None \<Rightarrow> full_line
      | Some ds \<Rightarrow>
          (case resolve by_qnum by_exam (py_strip g1) (int_of_digits ds) (py_strip g3) of
             (prob, choices) \<Rightarrow>
               if format_problem_block prob choices \<noteq> []
               then full_line @ [NL] @ format_problem_block prob choices
               else full_line))"

lemma row_match_at_shorter:
  "row_match_at s = Some (full, g1, g2, g3, rest) \<Longrightarrow> length rest < length s"
proof -
  assume a: "row_match_at s = Some (full, g1, g2, g3, rest)"
  from a obtain s1 where s1: "lit [BAR] s = Some s1"
    by (auto simp: row_match_at_def split: option.splits)
  from a s1 obtain s5 where
    r: "rest = tl (dropWhile (\<lambda>x. x \<noteq> BAR) s5)" and l: "length s5 \<le> length s1"
  proof -
    from a s1 obtain g1' s2 where s2: "exam_token (dropWhile is_space s1) = Some (g1', s2)"
      by (auto simp: row_match_at_def split: option.splits)
    from a s1 s2 obtain s3 where s3: "lit [BAR] (dropWhile is_space s2) = Some s3"
      by (auto simp: row_match_at_def split: option.splits)
    from a s1 s2 s3 obtain g2' s4 where s4: "q_token (dropWhile is_space s3) = Some (g2', s4)"
      by (auto simp: row_match_at_def split: option.splits)
    from a s1 s2 s3 s4 obtain s5 where s5: "lit [BAR] (dropWhile is_space s4) = Some s5"
      by (auto simp: row_match_at_def split: option.splits)
    have "rest = tl (dropWhile (\<lambda>x. x \<noteq> BAR) s5)"
      using a s1 s2 s3 s4 s5 by (auto simp: row_match_at_def Let_def split: if_splits)
    moreover have "length s2 \<le> length s1"
      using s2 length_dropWhile_le [of is_space s1] by (auto simp: exam_token_def split: if_splits)
    moreover have "length s3 \<le> length s2"
      using lit_length [OF s3] length_dropWhile_le [of is_space s2] by simp
    moreover have "length s4 \<le> length s3"
      using s4 length_dropWhile_le [of is_space s3]
        length_dropWhile_le [of is_digit "tl (dropWhile is_space s3)"]
      by (auto simp: q_token_def split: list.splits if_splits)
    moreover have "length s5 \<le> length s4"
      using lit_length [OF s5] length_dropWhile_le [of is_space s4] by simp
    ultimately show ?thesis using that by simp
  qed
  have "length rest \<le> length s5"
    unfolding r using length_dropWhile_le [of "\<lambda>x. x \<noteq> BAR" s5] by simp
  then show ?thesis using l lit_length [OF s1] by simp
qed

text \<open>
  Line 213, \<^verbatim>\<open>pattern.sub(replace_row, content)\<close> under \<^verbatim>\<open>MULTILINE\<close>: the row pattern is
  tried where a line begins; a match is replaced by the result of \<^verbatim>\<open>replace_row\<close> and the
  scan goes on behind it (in the middle of a line); everything else is copied.
\<close>

function sub_rows :: "by_qnum_map \<Rightarrow> by_exam_map \<Rightarrow> bool \<Rightarrow> ustring \<Rightarrow> ustring" where
  "sub_rows bq be bol [] = []"
| "sub_rows bq be bol (c # cs) =
     (case (if bol then row_match_at (c # cs) else None) of
        Some (full, g1, g2, g3, rest) \<Rightarrow>
          replace_row bq be full g1 g2 g3 @ sub_rows bq be False rest
      | None \<Rightarrow> c # sub_rows bq be (c = NL) cs)"
  by pat_completeness auto
termination
  by (relation "measure (\<lambda>(bq, be, b, s). length s)")
    (auto split: if_splits dest: row_match_at_shorter)

text \<open>
  Lines 172 to 215, from the content read to the content written: the pre-pass, the index
  built from the corpus, and the rows rewritten.
\<close>

definition rewrite :: "lookup \<Rightarrow> ustring \<Rightarrow> ustring" where
  "rewrite idx content = sub_rows (fst idx) (snd idx) True (strip_attached content)"

definition main :: "document list \<Rightarrow> ustring \<Rightarrow> ustring" where
  "main docs content = rewrite (build_lookup docs) content"

section \<open>Reading the index\<close>

text \<open>The list stored under a key, empty for a key that is absent (\<^verbatim>\<open>d.get(k, [])\<close>).\<close>

definition entries_of :: "('k \<rightharpoonup> 'v list) \<Rightarrow> 'k \<Rightarrow> 'v list" where
  "entries_of m k = (case m k of None \<Rightarrow> [] | Some l \<Rightarrow> l)"

text \<open>A record with a problem text or with choices: the test of line 147.\<close>

definition has_text :: "entry \<Rightarrow> bool" where
  "has_text r = (fst r \<noteq> [] \<or> fst (snd r) \<noteq> [])"

text \<open>The two properties of an index that the indexer maintains.\<close>

definition linked :: "lookup \<Rightarrow> bool" where
  "linked idx =
     (\<forall>e q r. r \<in> set (entries_of (fst idx) (e, q)) \<longrightarrow> (q, r) \<in> set (entries_of (snd idx) e))"

definition useful :: "lookup \<Rightarrow> bool" where
  "useful idx =
     ((\<forall>k r. r \<in> set (entries_of (fst idx) k) \<longrightarrow> has_text r)
      \<and> (\<forall>e q r. (q, r) \<in> set (entries_of (snd idx) e) \<longrightarrow> has_text r))"

section \<open>Example documents\<close>

text \<open>
  An explanation file of the main session of 2022 and its exam id.  The first document has
  question 1 with problem text, choices and answer, and question 5 with choices and answer
  only; the second has one heading for the questions 35, 36 and 37, written as in the
  doc string of \<^verbatim>\<open>parse_question_numbers\<close>.
\<close>

definition ex_name :: ustring where
  "ex_name = u ''2022'' @ [26412, 35430, 39443] @ u ''_'' @ w_explanation @ u ''.md''"

definition ex_exam :: ustring where
  "ex_exam = u ''2022'' @ [26412, 35430]"

definition ex_doc :: ustring where
  "ex_doc =
     u ''## '' @ [MON] @ u ''1'' @ [NL]
     @ u ''#### '' @ w_problem @ [NL]
     @ u ''Which?'' @ [NL]
     @ u ''#### '' @ w_choices @ [NL]
     @ u ''- **a.** flexion'' @ [NL]
     @ u ''#### '' @ w_answer @ [NL]
     @ u ''a. flexion'' @ [NL]
     @ u ''## '' @ [MON] @ u ''5'' @ [NL]
     @ u ''#### '' @ w_choices @ [NL]
     @ u ''- **a.** flexion'' @ [NL]
     @ u ''- **b.** rotation'' @ [NL]
     @ u ''#### '' @ w_answer @ [NL]
     @ u ''a. flexion'' @ [NL]"

definition ex_q1 :: entry where
  "ex_q1 = (u ''Which?'', u ''**a.** flexion'', u ''a. flexion'')"

definition ex_q5 :: entry where
  "ex_q5 = ([], u ''**a.** flexion / **b.** rotation'', u ''a. flexion'')"

definition ex_doc35 :: ustring where
  "ex_doc35 =
     u ''## '' @ [MON] @ u ''35'' @ [12539] @ u ''36'' @ [12539] @ u ''37'' @ [NL]
     @ u ''#### '' @ w_problem @ [NL]
     @ u ''Q?'' @ [NL]
     @ u ''#### '' @ w_answer @ [NL]
     @ u ''x'' @ [NL]"

definition ex_q35 :: entry where
  "ex_q35 = (u ''Q?'', [], u ''x'')"

section \<open>Well-formed choice lines\<close>

text \<open>
  A choice as the explanation files write it: a label, a separator (none, or one of the
  separator glyphs) and a text without line feed.  Its line in the file is a hyphen, a
  space, the label and separator between two pairs of asterisks, and the text.
\<close>

type_synonym choice = "uchar \<times> ustring \<times> ustring"

definition well_formed_choice :: "choice \<Rightarrow> bool" where
  "well_formed_choice ch =
     (is_label (fst ch)
      \<and> (fst (snd ch) = [] \<or> (length (fst (snd ch)) = 1 \<and> is_choice_sep (hd (fst (snd ch)))))
      \<and> NL \<notin> set (snd (snd ch)))"

definition bold_label :: "choice \<Rightarrow> ustring" where
  "bold_label ch = [STAR, STAR] @ fst ch # fst (snd ch) @ [STAR, STAR]"

definition choice_line :: "choice \<Rightarrow> ustring" where
  "choice_line ch = [DASH, 32] @ bold_label ch @ snd (snd ch)"

definition choice_block :: "choice list \<Rightarrow> ustring" where
  "choice_block items = concat (map (\<lambda>ch. choice_line ch @ [NL]) items)"

text \<open>
  The list of choices as it stands in a block: the lines with a line feed between them.
  Behind the last line the block ends, or a line feed follows and then a text that does
  not begin another round of the group of line 49.  (A text without line feed that
  followed the last line would belong to this line.)
\<close>

definition choice_list :: "choice list \<Rightarrow> ustring" where
  "choice_list items = py_join [NL] (map choice_line items)"

definition list_ends :: "ustring \<Rightarrow> bool" where
  "list_ends post = (case post of [] \<Rightarrow> True | c # p \<Rightarrow> c = NL \<and> choice_item p = None)"

text \<open>What the extractor keeps of such a line: everything but the list marker.\<close>

definition kept_text :: "choice \<Rightarrow> ustring" where
  "kept_text ch = bold_label ch @ py_rstrip (snd (snd ch))"

text \<open>A pattern matches at no position inside \<open>pre\<close>, when \<open>rest\<close> follows \<open>pre\<close>.\<close>

fun unmatched_before :: "(ustring \<Rightarrow> 'a option) \<Rightarrow> ustring \<Rightarrow> ustring \<Rightarrow> bool" where
  "unmatched_before f [] rest = True"
| "unmatched_before f (c # cs) rest = (f (c # cs @ rest) = None \<and> unmatched_before f cs rest)"

section \<open>Texts with attached lines\<close>

text \<open>
  \<open>attaches y z\<close>: the text \<open>z\<close> is the text \<open>y\<close> with lines of the attached form put in
  behind some of its lines (at the end of \<open>y\<close>, or in front of a line feed of \<open>y\<close>).
\<close>

inductive attaches :: "ustring \<Rightarrow> ustring \<Rightarrow> bool" where
  attaches_Nil: "attaches [] []"
| attaches_copy: "attaches y z \<Longrightarrow> attaches (c # y) (c # z)"
| attaches_line:
    "attaches y z \<Longrightarrow> y = [] \<or> hd y = NL \<Longrightarrow> attached_line l \<Longrightarrow> NL \<notin> set l
     \<Longrightarrow> attaches y (NL # l @ z)"

text \<open>
  A record, and an index, whose problem texts and choices hold no line feed; the extractor
  produces no others.
\<close>

definition clean_entry :: "entry \<Rightarrow> bool" where
  "clean_entry r = (NL \<notin> set (fst r) \<and> NL \<notin> set (fst (snd r)))"

definition clean :: "lookup \<Rightarrow> bool" where
  "clean idx =
     ((\<forall>k r. r \<in> set (entries_of (fst idx) k) \<longrightarrow> clean_entry r)
      \<and> (\<forall>e q r. (q, r) \<in> set (entries_of (snd idx) e) \<longrightarrow> clean_entry r))"



section \<open>Evaluation of the model on concrete strings\<close>

lemmas norm_defs =
  u_def NL_def py_whitespace_def is_space_def py_strip_def is_label_def is_norm_sep_def
  strip_label_def is_open_def is_close_def remove_ws_def normalize_answer_for_match_def

lemmas match_defs = is_kanji_def is_latin_def answers_match_def

section \<open>Substrings\<close>

lemma py_in_length: "py_in a b \<Longrightarrow> length a \<le> length b"
  by (induction b) (auto dest: prefix_length_le)

lemma py_in_same_length: "py_in a b \<Longrightarrow> length a = length b \<Longrightarrow> a = b"
proof (induction b)
  case Nil
  then show ?case by simp
next
  case (Cons c cs)
  from Cons.prems(1) have "prefix a (c # cs) \<or> py_in a cs" by simp
  then show ?case
  proof
    assume "prefix a (c # cs)"
    then obtain zs where "c # cs = a @ zs" by (auto simp: prefix_def)
    with Cons.prems(2) show ?thesis by (metis append_eq_conv_conj append_Nil2)
  next
    assume "py_in a cs"
    then have "length a \<le> length cs" by (rule py_in_length)
    with Cons.prems(2) show ?thesis by simp
  qed
qed

lemma py_in_antisym: "py_in a b \<Longrightarrow> py_in b a \<Longrightarrow> a = b"
  by (meson py_in_length py_in_same_length le_antisym)

section \<open>The normalizer on its own output\<close>

lemma dropWhile_not_close_Nil:
  "(dropWhile (\<lambda>x. \<not> is_close x) cs = []) = (\<forall>x \<in> set cs. \<not> is_close x)"
  by (simp add: dropWhile_eq_Nil_conv)

lemma unwrap_no_span: "\<not> has_paren_span s \<Longrightarrow> unwrap_parens s = s"
  by (induction s) (auto simp: dropWhile_not_close_Nil)

lemma unwrap_length_le: "length (unwrap_parens s) \<le> length s"
proof (induction s rule: unwrap_parens.induct)
  case 1
  show ?case by simp
next
  case (2 c cs)
  let ?d = "dropWhile (\<lambda>x. \<not> is_close x) cs"
  let ?t = "takeWhile (\<lambda>x. \<not> is_close x) cs"
  show ?case
  proof (cases "is_open c \<and> ?d \<noteq> []")
    case True
    have "length ?t + length ?d = length cs"
      by (metis length_append takeWhile_dropWhile_id)
    moreover have "length (unwrap_parens (tl ?d)) \<le> length (tl ?d)"
      using 2(1) True by simp
    ultimately show ?thesis using True by simp
  next
    case False
    then show ?thesis using 2(2) by auto
  qed
qed

lemma unwrap_span_shorter: "has_paren_span s \<Longrightarrow> length (unwrap_parens s) < length s"
proof (induction s rule: unwrap_parens.induct)
  case 1
  then show ?case by simp
next
  case (2 c cs)
  let ?d = "dropWhile (\<lambda>x. \<not> is_close x) cs"
  let ?t = "takeWhile (\<lambda>x. \<not> is_close x) cs"
  show ?case
  proof (cases "is_open c \<and> ?d \<noteq> []")
    case True
    have "length ?t + length ?d = length cs"
      by (metis length_append takeWhile_dropWhile_id)
    moreover have "length (unwrap_parens (tl ?d)) \<le> length (tl ?d)"
      by (rule unwrap_length_le)
    ultimately show ?thesis using True by simp
  next
    case False
    then have "has_paren_span cs" using 2(3) by (auto simp: dropWhile_not_close_Nil)
    then show ?thesis using 2(2) False by auto
  qed
qed

lemma remove_ws_free: "\<forall>c \<in> set (remove_ws s). \<not> is_space c"
  by (simp add: remove_ws_def)

lemma normalize_ws_free: "\<forall>c \<in> set (normalize_answer_for_match s). \<not> is_space c"
  by (simp add: normalize_answer_for_match_def remove_ws_free)

lemma dropWhile_space_id: "\<forall>c \<in> set s. \<not> is_space c \<Longrightarrow> dropWhile is_space s = s"
  by (cases s) auto

lemma py_strip_id: "\<forall>c \<in> set s. \<not> is_space c \<Longrightarrow> py_strip s = s"
  by (simp add: py_strip_def dropWhile_space_id)

lemma remove_ws_id: "\<forall>c \<in> set s. \<not> is_space c \<Longrightarrow> remove_ws s = s"
  by (simp add: remove_ws_def)

lemma py_strip_length: "length (py_strip s) \<le> length s"
proof -
  have "length (py_strip s) \<le> length (dropWhile is_space s)"
    unfolding py_strip_def
    using length_dropWhile_le [of is_space "rev (dropWhile is_space s)"] by simp
  then show ?thesis using length_dropWhile_le [of is_space s] by linarith
qed

lemma remove_ws_length: "length (remove_ws s) \<le> length s"
  by (simp add: remove_ws_def)

lemma normalize_tail_length: "length (remove_ws (unwrap_parens (py_strip s))) \<le> length s"
  using remove_ws_length [of "unwrap_parens (py_strip s)"]
    unwrap_length_le [of "py_strip s"] py_strip_length [of s]
  by linarith

lemma label_not_space: "is_label c \<Longrightarrow> \<not> is_space c"
  by (auto simp: is_label_def is_space_def py_whitespace_def)

lemma strip_label_shorter:
  assumes "s \<noteq> []" "is_label (hd s)"
  shows "length (strip_label s) < length s"
proof -
  from assms obtain c cs where s: "s = c # cs" and c: "is_label c" by (cases s) auto
  have "length (dropWhile is_norm_sep (dropWhile is_space cs)) \<le> length cs"
    using length_dropWhile_le [of is_norm_sep "dropWhile is_space cs"]
      length_dropWhile_le [of is_space cs]
    by linarith
  then show ?thesis using s c label_not_space [OF c] by (simp add: strip_label_def)
qed

lemma strip_label_id:
  assumes "\<forall>c \<in> set s. \<not> is_space c" "s = [] \<or> \<not> is_label (hd s)"
  shows "strip_label s = s"
  using assms by (cases s) (auto simp: strip_label_def)

text \<open>
  Claim C2, as the code has it.  Normalizing twice gives the same string as normalizing
  once exactly when the first normalization neither begins with a label glyph (a to e, or a
  circled number) nor contains an opening bracket with a closing bracket behind it.  In
  every other case the second pass removes one more label or one more pair of brackets.
\<close>

theorem normalize_idempotent_iff:
  "(normalize_answer_for_match (normalize_answer_for_match x) = normalize_answer_for_match x)
   = ((normalize_answer_for_match x = [] \<or> \<not> is_label (hd (normalize_answer_for_match x)))
      \<and> \<not> has_paren_span (normalize_answer_for_match x))"
proof -
  define y where "y = normalize_answer_for_match x"
  have wsf: "\<forall>c \<in> set y. \<not> is_space c" unfolding y_def by (rule normalize_ws_free)
  have "(normalize_answer_for_match y = y)
        = ((y = [] \<or> \<not> is_label (hd y)) \<and> \<not> has_paren_span y)"
  proof (cases "y = [] \<or> \<not> is_label (hd y)")
    case nolabel: True
    then have sl: "strip_label y = y" using wsf by (simp add: strip_label_id)
    show ?thesis
    proof (cases "has_paren_span y")
      case True
      then have "length (unwrap_parens y) < length y" by (rule unwrap_span_shorter)
      then have "length (normalize_answer_for_match y) < length y"
        using remove_ws_length [of "unwrap_parens y"]
        by (simp add: normalize_answer_for_match_def sl py_strip_id wsf)
      then show ?thesis using True by auto
    next
      case False
      then have "normalize_answer_for_match y = y"
        by (simp add: normalize_answer_for_match_def sl py_strip_id wsf
            unwrap_no_span remove_ws_id)
      then show ?thesis using False nolabel by simp
    qed
  next
    case False
    then have "length (strip_label y) < length y" by (simp add: strip_label_shorter)
    then have "length (normalize_answer_for_match y) < length y"
      using normalize_tail_length [of "strip_label y"]
      by (simp add: normalize_answer_for_match_def)
    then show ?thesis using False by auto
  qed
  then show ?thesis by (simp add: y_def)
qed

theorem normalize_idempotent_iff_witness:
  "normalize_answer_for_match (normalize_answer_for_match (u ''d. flexion (of wrist)''))
   = normalize_answer_for_match (u ''d. flexion (of wrist)'')"
proof -
  have n: "normalize_answer_for_match (u ''d. flexion (of wrist)'') = u ''flexionofwrist''"
    by (simp add: norm_defs)
  have h: "(u ''flexionofwrist'' = [] \<or> \<not> is_label (hd (u ''flexionofwrist'')))
           \<and> \<not> has_paren_span (u ''flexionofwrist'')"
    by (simp add: norm_defs)
  show ?thesis using h normalize_idempotent_iff [of "u ''d. flexion (of wrist)''"]
    unfolding n by blast
qed

text \<open>
  Claim C2 as the specification states it fails: \<^verbatim>\<open>"ab"\<close> normalizes to \<^verbatim>\<open>"b"\<close> (the
  leading \<^verbatim>\<open>a\<close> is read as a choice label), and \<^verbatim>\<open>"b"\<close> normalizes to the empty string.
\<close>

theorem normalize_not_idempotent:
  "normalize_answer_for_match (normalize_answer_for_match (u ''ab''))
   \<noteq> normalize_answer_for_match (u ''ab'')"
  by (simp add: norm_defs)

section \<open>The fuzzy matcher\<close>

text \<open>
  Claim C4.  When the two normalized answers differ and one occurs inside the other,
  \<open>answers_match\<close> holds exactly when the shorter one has at least half the length of the
  longer one.
\<close>

theorem answers_match_substring_rule:
  assumes "normalize_answer_for_match a \<noteq> normalize_answer_for_match b"
    and "py_in (normalize_answer_for_match a) (normalize_answer_for_match b)
         \<or> py_in (normalize_answer_for_match b) (normalize_answer_for_match a)"
  shows "answers_match a b
     = (max (length (normalize_answer_for_match a)) (length (normalize_answer_for_match b))
        \<le> 2 * min (length (normalize_answer_for_match a))
                  (length (normalize_answer_for_match b)))"
proof -
  define r where "r = normalize_answer_for_match a"
  define c where "c = normalize_answer_for_match b"
  from assms have ne: "r \<noteq> c" and sub: "py_in r c \<or> py_in c r"
    by (simp_all add: r_def c_def)
  show ?thesis
    unfolding answers_match_def Let_def r_def [symmetric] c_def [symmetric]
    using ne sub py_in_length [of r c] py_in_length [of c r] py_in_antisym [of r c]
    by (auto simp: max_def min_def)
qed

text \<open>
  The boundary of the rule: a string of 10 characters inside one of 19 matches, the same
  string inside one of 21 does not.
\<close>

theorem answers_match_substring_rule_witness:
  "answers_match (u ''flexionofw'') (u ''flexionofwristandot'')
   \<and> \<not> answers_match (u ''flexionofw'') (u ''flexionofwristandothe'')"
proof -
  have n1: "normalize_answer_for_match (u ''flexionofw'') = u ''flexionofw''"
    and n2: "normalize_answer_for_match (u ''flexionofwristandot'') = u ''flexionofwristandot''"
    and n3: "normalize_answer_for_match (u ''flexionofwristandothe'')
             = u ''flexionofwristandothe''"
    by (simp_all add: norm_defs)
  have l: "length (u ''flexionofw'') = 10" "length (u ''flexionofwristandot'') = 19"
    "length (u ''flexionofwristandothe'') = 21"
    by (simp_all add: u_def)
  have s1: "py_in (u ''flexionofw'') (u ''flexionofwristandot'')"
    and s2: "py_in (u ''flexionofw'') (u ''flexionofwristandothe'')"
    by (simp_all add: u_def)
  have d1: "u ''flexionofw'' \<noteq> u ''flexionofwristandot''"
    and d2: "u ''flexionofw'' \<noteq> u ''flexionofwristandothe''"
    by (simp_all add: u_def)
  show ?thesis
    using answers_match_substring_rule [of "u ''flexionofw''" "u ''flexionofwristandot''"]
      answers_match_substring_rule [of "u ''flexionofw''" "u ''flexionofwristandothe''"]
      s1 s2 d1 d2
    unfolding n1 n2 n3 l by simp
qed

text \<open>
  Claim C8.  The matcher is symmetric in its two arguments, whichever rule decides: the
  empty case, equality, the substring rule (the shorter string is always the one tested
  against half of the longer) and the shared-token rule.
\<close>

theorem answers_match_symmetric: "answers_match a b = answers_match b a"
proof -
  define r where "r = normalize_answer_for_match a"
  define c where "c = normalize_answer_for_match b"
  have tok: "(set (find_tokens r) \<inter> set (find_tokens c) \<noteq> {})
             = (set (find_tokens c) \<inter> set (find_tokens r) \<noteq> {})"
    by (simp add: Int_commute)
  show ?thesis
    unfolding answers_match_def Let_def r_def [symmetric] c_def [symmetric]
    using py_in_antisym [of r c] tok by auto
qed

section \<open>Texts as lists of lines\<close>

lemma split_on_ne: "split_on d s \<noteq> []"
  by (induction s) (auto split: list.splits)

lemma split_on_free: "\<forall>l \<in> set (split_on d s). \<forall>c \<in> set l. \<not> d c"
proof (induction s)
  case Nil show ?case by simp
next
  case (Cons c cs)
  obtain l ls where e: "split_on d cs = l # ls" using split_on_ne [of d cs] by (cases "split_on d cs") auto
  show ?case using Cons e by auto
qed

lemma split_on_append:
  "\<forall>c \<in> set l. \<not> d c \<Longrightarrow> split_on d (l @ rest) = (l @ hd (split_on d rest)) # tl (split_on d rest)"
  by (induction l) (auto simp: split_on_ne split: list.splits)

lemma split_lines_build:
  assumes "NL \<notin> set l" "\<forall>x \<in> set ls. NL \<notin> set x"
  shows "split_lines (l @ tail_lines ls) = l # ls"
  using assms
proof (induction ls arbitrary: l)
  case Nil
  have "split_on (\<lambda>c. c = NL) (l @ []) = (l @ hd (split_on (\<lambda>c. c = NL) [])) # tl (split_on (\<lambda>c. c = NL) [])"
    using Nil(1) by (intro split_on_append) auto
  then show ?case by (simp add: split_lines_def tail_lines_def)
next
  case (Cons x xs)
  have ih: "split_lines (x @ tail_lines xs) = x # xs" using Cons by simp
  have "split_on (\<lambda>c. c = NL) (l @ (NL # x @ tail_lines xs))
        = (l @ hd (split_on (\<lambda>c. c = NL) (NL # x @ tail_lines xs))) # tl (split_on (\<lambda>c. c = NL) (NL # x @ tail_lines xs))"
    using Cons(2) by (intro split_on_append) auto
  then show ?case using ih by (simp add: split_lines_def tail_lines_def)
qed

lemma text_as_lines: "s = hd (split_lines s) @ tail_lines (tl (split_lines s))"
proof (induction s)
  case Nil show ?case by (simp add: split_lines_def tail_lines_def)
next
  case (Cons c cs)
  obtain l ls where e: "split_on (\<lambda>c. c = NL) cs = l # ls"
    using split_on_ne [of "\<lambda>c. c = NL" cs] by (cases "split_on (\<lambda>c. c = NL) cs") auto
  show ?case using Cons e by (auto simp: split_lines_def tail_lines_def)
qed

lemma split_lines_free: "\<forall>l \<in> set (split_lines s). NL \<notin> set l"
  using split_on_free [of "\<lambda>c. c = NL" s] by (auto simp: split_lines_def)

lemma sub_attached_line:
  "NL \<notin> set l \<Longrightarrow> sub_attached m (l @ rest) = l @ sub_attached m rest"
  by (induction l) auto

lemma prefix_marker_line:
  assumes "NL \<notin> set m" "NL \<notin> set l" "rest = [] \<or> hd rest = NL"
  shows "prefix m (l @ rest) = prefix m l"
proof
  assume p: "prefix m (l @ rest)"
  show "prefix m l"
  proof (cases "length m \<le> length l")
    case True
    with p show ?thesis by (metis prefix_length_prefix prefixI)
  next
    case False
    then have "length l < length m" by simp
    from p obtain z where z: "l @ rest = m @ z" by (auto simp: prefix_def)
    have "m ! length l = (l @ rest) ! length l" using z \<open>length l < length m\<close> by (simp add: nth_append)
    moreover have "rest \<noteq> []" using z \<open>length l < length m\<close> by (metis append_Nil2 length_append not_add_less1)
    ultimately have "m ! length l = NL" using assms(3) by (simp add: nth_append hd_conv_nth)
    then have "NL \<in> set m" using \<open>length l < length m\<close> by (metis nth_mem)
    with assms(1) show ?thesis by simp
  qed
next
  assume "prefix m l" then show "prefix m (l @ rest)" by (simp add: prefix_prefix)
qed

lemma takeWhile_line:
  assumes "NL \<notin> set l" "rest = [] \<or> hd rest = NL"
  shows "takeWhile (\<lambda>x. x \<noteq> NL) (l @ rest) = l" "dropWhile (\<lambda>x. x \<noteq> NL) (l @ rest) = rest"
  using assms by (induction l) (auto simp: takeWhile_eq_Nil_iff dropWhile_eq_self_iff intro: )

lemma sub_attached_next:
  assumes "NL \<notin> set m" "NL \<notin> set l" "rest = [] \<or> hd rest = NL"
  shows "sub_attached m (NL # l @ rest)
         = (if is_attached m l then sub_attached m rest else NL # l @ sub_attached m rest)"
proof (cases "prefix m l")
  case True
  then have pl: "prefix m (l @ rest)" by (simp add: prefix_prefix)
  have d: "drop (length m) (l @ rest) = drop (length m) l @ rest"
    using True by (simp add: prefix_length_le)
  have f: "NL \<notin> set (drop (length m) l)" using assms(2) by (meson in_set_dropD)
  have tw: "takeWhile (\<lambda>x. x \<noteq> NL) (drop (length m) l @ rest) = drop (length m) l"
    and dw: "dropWhile (\<lambda>x. x \<noteq> NL) (drop (length m) l @ rest) = rest"
    using takeWhile_line [OF f assms(3)] by simp_all
  have "(drop (length m) l \<noteq> []) = (length m < length l)" by auto
  then show ?thesis using True pl d tw dw sub_attached_line [OF assms(2), of m rest]
    by (simp add: is_attached_def)
next
  case False
  then have "\<not> prefix m (l @ rest)" using prefix_marker_line [OF assms] by simp
  then show ?thesis using False sub_attached_line [OF assms(2), of m rest] by (simp add: is_attached_def)
qed

lemma tail_lines_shape: "tail_lines ls = [] \<or> hd (tail_lines ls) = NL"
  by (cases ls) (auto simp: tail_lines_def)

lemma sub_attached_tail:
  assumes "NL \<notin> set m" "\<forall>x \<in> set ls. NL \<notin> set x"
  shows "sub_attached m (tail_lines ls) = tail_lines (filter (\<lambda>l. \<not> is_attached m l) ls)"
  using assms(2)
proof (induction ls)
  case Nil show ?case by (simp add: tail_lines_def)
next
  case (Cons x xs)
  have "sub_attached m (NL # x @ tail_lines xs)
        = (if is_attached m x then sub_attached m (tail_lines xs) else NL # x @ sub_attached m (tail_lines xs))"
    using Cons(2) tail_lines_shape [of xs] by (intro sub_attached_next assms(1)) auto
  then show ?case using Cons by (simp add: tail_lines_def)
qed

lemma sub_attached_lines:
  assumes "NL \<notin> set m"
  shows "split_lines (sub_attached m s)
         = hd (split_lines s) # filter (\<lambda>l. \<not> is_attached m l) (tl (split_lines s))"
proof -
  obtain l ls where e: "split_lines s = l # ls" using split_on_ne [of "\<lambda>c. c = NL" s] by (cases "split_lines s") (auto simp: split_lines_def)
  have fr: "NL \<notin> set l" "\<forall>x \<in> set ls. NL \<notin> set x" using split_lines_free [of s] e by auto
  have s: "s = l @ tail_lines ls" using text_as_lines [of s] e by simp
  have "sub_attached m s = l @ tail_lines (filter (\<lambda>l. \<not> is_attached m l) ls)"
    unfolding s using sub_attached_line [OF fr(1)] sub_attached_tail [OF assms fr(2)] by simp
  moreover have "split_lines (l @ tail_lines (filter (\<lambda>l. \<not> is_attached m l) ls)) = l # filter (\<lambda>l. \<not> is_attached m l) ls"
    using fr by (intro split_lines_build) auto
  ultimately show ?thesis using e by simp
qed

lemma markers_free: "NL \<notin> set problem_marker" "NL \<notin> set choices_marker"
  by (simp_all add: problem_marker_def choices_marker_def u_def NL_def)


section \<open>The pre-pass\<close>

lemma strip_attached_split:
  "split_lines (strip_attached s)
   = hd (split_lines s) # filter (\<lambda>l. \<not> attached_line l) (tl (split_lines s))"
  by (simp add: strip_attached_def sub_attached_lines markers_free attached_line_def)

text \<open>
  Claim C10, as the code has it.  Both patterns of the pre-pass begin with a line feed, so
  the first line of the document is never touched; every later line that consists of one
  of the two markers followed by at least one character is deleted together with the line
  feed in front of it, whoever wrote it, and every other line is kept in place.
\<close>

theorem strip_attached_lines:
  "split_lines (strip_attached s)
   = hd (split_lines s) # filter (\<lambda>l. \<not> attached_line l) (tl (split_lines s))"
proof -
  let ?t = "sub_attached problem_marker s"
  have first: "split_lines ?t
               = hd (split_lines s)
                 # filter (\<lambda>l. \<not> is_attached problem_marker l) (tl (split_lines s))"
    using markers_free(1) by (rule sub_attached_lines)
  have "split_lines (sub_attached choices_marker ?t)
        = hd (split_lines ?t)
          # filter (\<lambda>l. \<not> is_attached choices_marker l) (tl (split_lines ?t))"
    using markers_free(2) by (rule sub_attached_lines)
  then show ?thesis by (simp add: first strip_attached_def attached_line_def)
qed

theorem strip_attached_lines_witness:
  "split_lines (strip_attached (u ''# notes'' @ [NL] @ problem_marker @ u ''by hand'' @ [NL]
    @ u ''end''))
   = [u ''# notes'', u ''end'']"
proof -
  have "split_lines (u ''# notes'' @ [NL] @ problem_marker @ u ''by hand'' @ [NL] @ u ''end'')
        = [u ''# notes'', problem_marker @ u ''by hand'', u ''end'']"
    by (simp add: split_lines_def problem_marker_def u_def NL_def)
  moreover have "attached_line (problem_marker @ u ''by hand'')"
    "\<not> attached_line (u ''end'')"
    by (simp_all add: attached_line_def is_attached_def problem_marker_def choices_marker_def u_def)
  ultimately show ?thesis
    using strip_attached_lines
      [of "u ''# notes'' @ [NL] @ problem_marker @ u ''by hand'' @ [NL] @ u ''end''"]
    by simp
qed

text \<open>
  Claim C10 as stated fails for the first line of a document: a document that begins with
  a line of the attached form keeps it.
\<close>

theorem strip_attached_keeps_first_line:
  "attached_line (problem_marker @ u ''abc'')
   \<and> split_lines (strip_attached (problem_marker @ u ''abc'' @ [NL] @ u ''x''))
     = [problem_marker @ u ''abc'', u ''x'']"
  by (simp add: strip_attached_def attached_line_def is_attached_def problem_marker_def
      choices_marker_def u_def NL_def split_lines_def)

section \<open>Evaluation of the indexer and of the rewrite on concrete documents\<close>

lemmas char_defs = Let_def u_def NL_def py_whitespace_def is_space_def is_label_def is_open_def
  is_close_def is_delim_def is_choice_sep_def digit_zeros_def digit_val_def is_digit_def
  int_of_digits_def lit_def after_last_nl_def py_strip_def split_lines_def

lemmas extract_defs = section_end_def body_after_def sub_heading_def bracketed_def w_problem_def
  w_full_def w_abridged_def w_choices_def w_answer_def section_at_def nl_to_space_def
  extract_problem_def choice_item_def choices_at_def keep_line_def choice_lines_def
  extract_choices_def
  extract_answer_def extract_problem_choices_answer_def choice_items.simps

lemmas index_defs = exam_id_from_filename_def parse_question_numbers_def num_list_def
  line_end_def heading_tail_def heading_at_def q_heading_nl_def any_heading_nl_def block_of_def
  append_at_def add_entry_def add_heading_def py_stem_def excluded_names_def w_explanation_def
  add_document_def build_lookup_def

lemmas row_defs = format_problem_block_def exam_token_def q_token_def row_match_at_def
  replace_row_def resolve_def rewrite_def main_def strip_attached_def problem_marker_def
  choices_marker_def is_norm_sep_def strip_label_def remove_ws_def
  normalize_answer_for_match_def is_kanji_def is_latin_def answers_match_def

lemmas ex_defs = ex_name_def ex_exam_def ex_doc_def ex_q1_def ex_q5_def ex_doc35_def ex_q35_def
  w_problem_def w_choices_def w_answer_def w_explanation_def

lemma ex_index_q5: "fst (build_lookup [(ex_name, ex_doc)]) (ex_exam, 5) = Some [ex_q5]"
  by (simp add: ex_defs char_defs extract_defs index_defs)

lemma ex_index_exam: "snd (build_lookup [(ex_name, ex_doc)]) ex_exam = Some [(1, ex_q1), (5, ex_q5)]"
  by (simp add: ex_defs char_defs extract_defs index_defs)

section \<open>What the indexer maintains\<close>

lemma entries_of_append_at:
  "entries_of (append_at m k v) k' = (if k' = k then entries_of m k @ [v] else entries_of m k')"
  by (simp add: entries_of_def append_at_def)

lemma foldl_invariant:
  assumes "P a" "\<And>a x. P a \<Longrightarrow> P (f a x)"
  shows "P (foldl f a xs)"
  using assms(1) by (induction xs arbitrary: a) (auto intro: assms(2))

lemma linked_add_entry: "linked idx \<Longrightarrow> linked (add_entry e r idx qn)"
  by (cases r) (auto simp: linked_def add_entry_def entries_of_append_at)

lemma useful_add_entry: "useful idx \<Longrightarrow> useful (add_entry e r idx qn)"
proof (cases "has_text r")
  case True
  assume "useful idx"
  then show ?thesis using True
    by (cases r) (auto simp: useful_def add_entry_def entries_of_append_at)
next
  case False
  assume "useful idx"
  moreover have "add_entry e r idx qn = idx" using False by (cases r) (simp add: add_entry_def has_text_def)
  ultimately show ?thesis by simp
qed

lemma linked_add_heading: "linked idx \<Longrightarrow> linked (add_heading e idx m)"
  unfolding add_heading_def Let_def
  by (auto intro!: foldl_invariant [where P = linked] linked_add_entry)

lemma useful_add_heading: "useful idx \<Longrightarrow> useful (add_heading e idx m)"
  unfolding add_heading_def Let_def
  by (auto intro!: foldl_invariant [where P = useful] useful_add_entry)

lemma linked_add_document: "linked idx \<Longrightarrow> linked (add_document idx doc)"
proof -
  assume a: "linked idx"
  obtain name body where d: "doc = (name, body)" by (cases doc)
  have "linked (foldl (add_heading x) idx hs)" for x hs
    using a by (rule foldl_invariant) (rule linked_add_heading)
  then show ?thesis using a by (simp add: add_document_def d)
qed

lemma useful_add_document: "useful idx \<Longrightarrow> useful (add_document idx doc)"
proof -
  assume a: "useful idx"
  obtain name body where d: "doc = (name, body)" by (cases doc)
  have "useful (foldl (add_heading x) idx hs)" for x hs
    using a by (rule foldl_invariant) (rule useful_add_heading)
  then show ?thesis using a by (simp add: add_document_def d)
qed

lemma linked_build_lookup: "linked (build_lookup docs)"
  unfolding build_lookup_def
proof (rule foldl_invariant)
  show "linked (Map.empty, Map.empty)" by (simp add: linked_def entries_of_def)
next
  fix a x assume "linked a" then show "linked (add_document a x)" by (rule linked_add_document)
qed

lemma useful_build_lookup: "useful (build_lookup docs)"
  unfolding build_lookup_def
proof (rule foldl_invariant)
  show "useful (Map.empty, Map.empty)" by (simp add: useful_def entries_of_def)
next
  fix a x assume "useful a" then show "useful (add_document a x)" by (rule useful_add_document)
qed


text \<open>
  Claim C9.  In the index that \<^verbatim>\<open>build_lookup\<close> returns, every record listed under an
  (exam id, question number) key is also listed, with that question number, under the exam
  id.
\<close>

theorem by_qnum_record_in_by_exam:
  assumes "fst (build_lookup docs) (exam, qn) = Some rs" "r \<in> set rs"
  shows "\<exists>l. snd (build_lookup docs) exam = Some l \<and> (qn, r) \<in> set l"
proof -
  have "r \<in> set (entries_of (fst (build_lookup docs)) (exam, qn))"
    using assms by (simp add: entries_of_def)
  then have "(qn, r) \<in> set (entries_of (snd (build_lookup docs)) exam)"
    using linked_build_lookup [of docs] unfolding linked_def by blast
  then show ?thesis by (cases "snd (build_lookup docs) exam") (auto simp: entries_of_def)
qed

theorem by_qnum_record_in_by_exam_witness:
  "\<exists>l. snd (build_lookup [(ex_name, ex_doc)]) ex_exam = Some l \<and> (5, ex_q5) \<in> set l"
  using by_qnum_record_in_by_exam [OF ex_index_q5, of ex_q5] by simp

text \<open>
  Claim C6.  A block whose extraction gives an empty problem text and empty choices adds
  nothing to either dictionary, whatever its answer is; and no record with an empty problem
  text and empty choices is found in the index that \<^verbatim>\<open>build_lookup\<close> returns.
\<close>

theorem empty_extraction_not_indexed:
  "(extract_problem_choices_answer (block_of rest) = ([], [], answer)
      \<longrightarrow> add_heading exam_id idx (g, rest) = idx)
   \<and> (\<forall>k rs. fst (build_lookup docs) k = Some rs \<longrightarrow> ([], [], answer) \<notin> set rs)
   \<and> (\<forall>e l qn. snd (build_lookup docs) e = Some l \<longrightarrow> (qn, [], [], answer) \<notin> set l)"
proof (intro conjI impI allI)
  assume a: "extract_problem_choices_answer (block_of rest) = ([], [], answer)"
  have "add_entry exam_id ([], [], answer) i qn = i" for i qn by (simp add: add_entry_def)
  then have "foldl (add_entry exam_id ([], [], answer)) idx qs = idx" for qs
    by (induction qs) auto
  then show "add_heading exam_id idx (g, rest) = idx" using a by (simp add: add_heading_def Let_def)
next
  fix k rs
  assume a: "fst (build_lookup docs) k = Some rs"
  show "([], [], answer) \<notin> set rs"
  proof
    assume "([], [], answer) \<in> set rs"
    then have "([], [], answer) \<in> set (entries_of (fst (build_lookup docs)) k)"
      using a by (simp add: entries_of_def)
    then have "has_text ([], [], answer)"
      using useful_build_lookup [of docs] unfolding useful_def by blast
    then show False by (simp add: has_text_def)
  qed
next
  fix e l qn
  assume a: "snd (build_lookup docs) e = Some l"
  show "(qn, [], [], answer) \<notin> set l"
  proof
    assume "(qn, [], [], answer) \<in> set l"
    then have "(qn, [], [], answer) \<in> set (entries_of (snd (build_lookup docs)) e)"
      using a by (simp add: entries_of_def)
    then have "has_text ([], [], answer)"
      using useful_build_lookup [of docs] unfolding useful_def by blast
    then show False by (simp add: has_text_def)
  qed
qed

theorem empty_extraction_not_indexed_witness:
  "add_heading ex_exam (Map.empty, Map.empty) ([MON, 55], [NL] @ u ''#### '' @ [27491, 35299]
    @ [NL] @ u ''x'' @ [NL]) = (Map.empty, Map.empty)
   \<and> ([], [], u ''x'') \<notin> set [ex_q5]"
proof -
  have e: "extract_problem_choices_answer (block_of ([NL] @ u ''#### '' @ [27491, 35299] @ [NL]
    @ u ''x'' @ [NL])) = ([], [], u ''x'')"
    by (simp add: char_defs extract_defs index_defs)
  show ?thesis
    using empty_extraction_not_indexed
      [of "[NL] @ u ''#### '' @ [27491, 35299] @ [NL] @ u ''x''
        @ [NL]" "u ''x''" ex_exam "(Map.empty, Map.empty)" "[MON, 55]"
        "[(ex_name, ex_doc)]"]
      e ex_index_q5
    by blast
qed

text \<open>
  Every question number that \<^verbatim>\<open>parse_question_numbers\<close> reads from a heading gets the
  record of the block, in both dictionaries, when the record has a problem text or choices.
\<close>

lemma add_entry_keeps_fst:
  "x \<in> set (entries_of (fst idx) k) \<Longrightarrow> x \<in> set (entries_of (fst (add_entry e r idx qn)) k)"
  by (cases r) (auto simp: add_entry_def entries_of_append_at)

lemma add_entry_keeps_snd:
  "y \<in> set (entries_of (snd idx) e') \<Longrightarrow> y \<in> set (entries_of (snd (add_entry e r idx qn)) e')"
  by (cases r) (auto simp: add_entry_def entries_of_append_at)

lemma add_entry_adds:
  "has_text r \<Longrightarrow> r \<in> set (entries_of (fst (add_entry e r idx qn)) (e, qn))
                   \<and> (qn, r) \<in> set (entries_of (snd (add_entry e r idx qn)) e)"
  by (cases r) (auto simp: add_entry_def entries_of_append_at has_text_def)

lemma foldl_add_entry_adds:
  assumes "has_text r" "qn \<in> set qs"
  shows "r \<in> set (entries_of (fst (foldl (add_entry e r) idx qs)) (e, qn))
         \<and> (qn, r) \<in> set (entries_of (snd (foldl (add_entry e r) idx qs)) e)"
  using assms(2)
proof (induction qs rule: rev_induct)
  case Nil
  then show ?case by simp
next
  case (snoc x xs)
  show ?case
  proof (cases "qn = x")
    case True
    then show ?thesis using add_entry_adds [OF assms(1)] by simp
  next
    case False
    then have "qn \<in> set xs" using snoc.prems by simp
    then show ?thesis using snoc.IH by (simp add: add_entry_keeps_fst add_entry_keeps_snd)
  qed
qed

lemma add_heading_indexes_parsed_numbers:
  assumes "has_text (extract_problem_choices_answer (block_of rest))"
    and "qn \<in> set (parse_question_numbers g)"
  shows "extract_problem_choices_answer (block_of rest)
           \<in> set (entries_of (fst (add_heading e idx (g, rest))) (e, qn))
         \<and> (qn, extract_problem_choices_answer (block_of rest))
           \<in> set (entries_of (snd (add_heading e idx (g, rest))) e)"
proof -
  have "parse_question_numbers g \<noteq> []" using assms(2) by auto
  then show ?thesis
    using foldl_add_entry_adds [OF assms] by (simp add: add_heading_def Let_def)
qed

text \<open>
  Claim C7 at the heading form that the doc string of \<^verbatim>\<open>parse_question_numbers\<close> itself
  names, one \<^verbatim>\<open>MON\<close> followed by the numbers 35, 36 and 37: the heading pattern of line
  128 accepts the heading, but only 35 is read from it, and the record of the block is
  indexed under question 35 alone.
\<close>

theorem shared_heading_indexed_under_first_number_only:
  "parse_question_numbers ([21839] @ u ''35'' @ [12539] @ u ''36'' @ [12539] @ u ''37'') = [35]
   \<and> fst (build_lookup [(ex_name, ex_doc35)]) (ex_exam, 35) = Some [ex_q35]
   \<and> fst (build_lookup [(ex_name, ex_doc35)]) (ex_exam, 36) = None
   \<and> fst (build_lookup [(ex_name, ex_doc35)]) (ex_exam, 37) = None
   \<and> snd (build_lookup [(ex_name, ex_doc35)]) ex_exam = Some [(35, ex_q35)]"
proof -
  have numbers: "parse_question_numbers ([MON, 51, 53, 12539, 51, 54, 12539, 51, 55]) = [35]"
    by (simp add: char_defs parse_question_numbers_def)
  have headings: "find_headings True ex_doc35
                  = [([MON, 51, 53, 12539, 51, 54, 12539, 51, 55], drop 12 ex_doc35)]"
    by (simp add: ex_defs char_defs index_defs)
  have extracted: "extract_problem_choices_answer (block_of (drop 12 ex_doc35)) = ex_q35"
    by (simp add: ex_defs char_defs extract_defs index_defs)
  have name: "exam_id_from_filename (py_stem ex_name) = ex_exam"
    "ex_name \<notin> set excluded_names" "py_in w_explanation ex_name"
    by (simp_all add: ex_defs char_defs index_defs)
  have "build_lookup [(ex_name, ex_doc35)]
        = add_heading ex_exam (Map.empty, Map.empty)
            ([MON, 51, 53, 12539, 51, 54, 12539, 51, 55], drop 12 ex_doc35)"
    using name by (simp add: build_lookup_def add_document_def headings) (simp add: ex_exam_def u_def)
  then show ?thesis
    using numbers extracted
    by (simp add: add_heading_def add_entry_def append_at_def ex_q35_def) (simp add: ex_exam_def u_def)
qed

section \<open>The row resolver\<close>

lemma scan_first_match:
  "scan_candidates r cands pc
   = (case first_match r cands of None \<Rightarrow> pc | Some (p, c, a) \<Rightarrow> (p, c))"
  by (induction cands) (auto simp: first_match_def)

text \<open>
  Where the resolver agrees with the specification: a first matching record under the
  exact key that has a problem text is the result, whatever the per-exam list holds; and
  without a matching record under the exact key the result is the first matching record of
  the per-exam list, or empty.
\<close>

lemma resolve_exact_with_problem:
  assumes "first_match r (entries_of bq (e, q)) = Some (p, c, a)" "p \<noteq> []"
  shows "resolve bq be e q r = (p, c)"
  using assms by (simp add: resolve_def scan_first_match Let_def entries_of_def)

lemma resolve_fallback:
  assumes "first_match r (entries_of bq (e, q)) = None"
  shows "resolve bq be e q r
         = (case first_match r (map snd (entries_of be e)) of
              None \<Rightarrow> ([], [])
            | Some (p, c, a) \<Rightarrow> (p, c))"
  using assms
  by (simp add: resolve_def scan_first_match Let_def entries_of_def first_match_def
      split: option.splits)

lemma ex_resolve_q5:
  "resolve (fst (build_lookup [(ex_name, ex_doc)])) (snd (build_lookup [(ex_name, ex_doc)]))
     ex_exam 5 (u ''flexion'')
   = (u ''Which?'', u ''**a.** flexion'')"
proof -
  have m: "answers_match (u ''flexion'') (u ''a. flexion'')"
    by (simp add: norm_defs match_defs)
  show ?thesis
    using m by (simp add: resolve_def ex_index_q5 ex_index_exam ex_q1_def ex_q5_def)
qed

lemma ex_main_row:
  "main [(ex_name, ex_doc)]
     (u ''| 202'' @ [50, 26412, 35430] @ u '' | '' @ [MON, 53] @ u '' | flexion |'')
   = u ''| 202'' @ [50, 26412, 35430] @ u '' | '' @ [MON, 53] @ u '' | flexion |''
     @ [NL] @ problem_marker @ u ''Which?'' @ [NL] @ choices_marker @ u ''**a.** flexion''"
proof -
  have s: "strip_attached
             (u ''| 202'' @ [50, 26412, 35430] @ u '' | '' @ [MON, 53] @ u '' | flexion |'')
           = u ''| 202'' @ [50, 26412, 35430] @ u '' | '' @ [MON, 53] @ u '' | flexion |''"
    by (simp add: strip_attached_def u_def NL_def)
  show ?thesis
    unfolding main_def rewrite_def s
    using ex_resolve_q5
    by (simp add: char_defs exam_token_def q_token_def row_match_at_def replace_row_def
        format_problem_block_def ex_exam_def u_def)
qed

text \<open>
  Claim C1 at a row whose record under the exact key has choices but no problem text.  In
  the example corpus the row of question 5 with the answer \<^verbatim>\<open>flexion\<close> matches the record
  of question 5, the first and only one under its exact key.  Line 198 tests the problem
  text found so far instead of whether a record was found, so the per-exam list is scanned
  all the same, and its first matching record, that of question 1, replaces the result:
  the row is written out with the problem text and the choices of question 1.
\<close>

theorem exact_match_without_problem_text_overridden:
  "first_match (u ''flexion'') (entries_of (fst (build_lookup [(ex_name, ex_doc)])) (ex_exam, 5))
     = Some ex_q5
   \<and> resolve (fst (build_lookup [(ex_name, ex_doc)])) (snd (build_lookup [(ex_name, ex_doc)]))
         ex_exam 5 (u ''flexion'')
     = (fst ex_q1, fst (snd ex_q1))
   \<and> (fst ex_q1, fst (snd ex_q1)) \<noteq> (fst ex_q5, fst (snd ex_q5))
   \<and> main [(ex_name, ex_doc)]
         (u ''| 202'' @ [50, 26412, 35430] @ u '' | '' @ [MON, 53] @ u '' | flexion |'')
     = u ''| 202'' @ [50, 26412, 35430] @ u '' | '' @ [MON, 53] @ u '' | flexion |''
       @ [NL] @ problem_marker @ u ''Which?'' @ [NL] @ choices_marker @ u ''**a.** flexion''"
proof -
  have m: "answers_match (u ''flexion'') (u ''a. flexion'')"
    by (simp add: norm_defs match_defs)
  have f: "first_match (u ''flexion'')
             (entries_of (fst (build_lookup [(ex_name, ex_doc)])) (ex_exam, 5)) = Some ex_q5"
    using m by (simp add: first_match_def entries_of_def ex_index_q5 ex_q5_def)
  have d: "(fst ex_q1, fst (snd ex_q1)) \<noteq> (fst ex_q5, fst (snd ex_q5))"
    by (simp add: ex_q1_def ex_q5_def u_def)
  show ?thesis using f ex_resolve_q5 d ex_main_row by (simp add: ex_q1_def)
qed

section \<open>The choices of a block\<close>


lemma py_strip_rtrim: "py_strip s = py_rstrip (dropWhile is_space s)"
  by (simp add: py_strip_def py_rstrip_def)

lemma rtrim_append:
  assumes "\<exists>c \<in> set b. \<not> is_space c"
  shows "py_rstrip (a @ b) = a @ py_rstrip b"
proof -
  from assms obtain c where c: "c \<in> set (rev b)" "\<not> is_space c" by auto
  have "dropWhile is_space (rev b @ rev a) = dropWhile is_space (rev b) @ rev a"
    using c by (rule dropWhile_append1)
  then show ?thesis by (simp add: py_rstrip_def)
qed

lemma rtrim_ws: "\<forall>c \<in> set w. is_space c \<Longrightarrow> py_rstrip (a @ w) = py_rstrip a"
proof -
  assume "\<forall>c \<in> set w. is_space c"
  then have "dropWhile is_space (rev w @ rev a) = dropWhile is_space (rev a)"
    by (intro dropWhile_append2) auto
  then show ?thesis by (simp add: py_rstrip_def)
qed

lemma rtrim_idem: "py_rstrip (py_rstrip s) = py_rstrip s"
  by (simp add: py_rstrip_def dropWhile_idem)

lemma rtrim_hd: "s \<noteq> [] \<Longrightarrow> \<not> is_space (hd s) \<Longrightarrow> py_rstrip s \<noteq> [] \<and> hd (py_rstrip s) = hd s"
proof -
  assume a: "s \<noteq> []" "\<not> is_space (hd s)"
  then obtain c cs where s: "s = c # cs" by (cases s) auto
  have "py_rstrip ([c] @ cs) = py_rstrip ([c] @ cs)" by simp
  show ?thesis
  proof (cases "\<exists>x \<in> set cs. \<not> is_space x")
    case True
    then have "py_rstrip ([c] @ cs) = [c] @ py_rstrip cs" by (rule rtrim_append)
    then show ?thesis using s by simp
  next
    case False
    then have "py_rstrip ([c] @ cs) = py_rstrip [c]" by (intro rtrim_ws) auto
    then show ?thesis using s a by (simp add: py_rstrip_def)
  qed
qed

lemma rtrim_free: "NL \<notin> set s \<Longrightarrow> NL \<notin> set (py_rstrip s)"
  by (metis py_rstrip_def set_rev set_dropWhileD)

lemma py_strip_nows_hd: "s \<noteq> [] \<Longrightarrow> \<not> is_space (hd s) \<Longrightarrow> py_strip s = py_rstrip s"
  by (cases s) (auto simp: py_strip_rtrim)

lemma space_facts: "is_space 32" "is_space NL" "\<not> is_space STAR" "\<not> is_space DASH" "\<not> is_space HASH"
  by (simp_all add: is_space_def py_whitespace_def NL_def)

lemma takeWhile_dropWhile_nl:
  "NL \<notin> set t \<Longrightarrow> dropWhile (\<lambda>x. x \<noteq> NL) (t @ NL # rest) = NL # rest"
  by (induction t) auto

lemma choice_item_line:
  assumes "well_formed_choice ch"
  shows "choice_item (choice_line ch @ NL # rest) = Some rest"
proof -
  obtain l sep t where ch: "ch = (l, sep, t)" by (cases ch)
  have l: "is_label l" and t: "NL \<notin> set t"
    and sep: "sep = [] \<or> (\<exists>s. sep = [s] \<and> is_choice_sep s)"
    using assms unfolding well_formed_choice_def ch
    by (auto simp: length_Suc_conv)
  have ns: "\<not> is_choice_sep STAR" by (simp add: is_choice_sep_def)
  from sep show ?thesis
  proof
    assume "sep = []"
    then show ?thesis
      using l t ns
      by (simp add: choice_item_def choice_line_def bold_label_def ch lit_def space_facts
          takeWhile_dropWhile_nl)
  next
    assume "\<exists>s. sep = [s] \<and> is_choice_sep s"
    then obtain s where "sep = [s]" "is_choice_sep s" by blast
    then show ?thesis
      using l t
      by (simp add: choice_item_def choice_line_def bold_label_def ch lit_def space_facts
          takeWhile_dropWhile_nl)
  qed
qed

lemma choice_item_last:
  assumes "well_formed_choice ch"
  shows "choice_item (choice_line ch) = Some []"
proof -
  obtain l sep t where ch: "ch = (l, sep, t)" by (cases ch)
  have l: "is_label l" and t: "NL \<notin> set t"
    and sep: "sep = [] \<or> (\<exists>s. sep = [s] \<and> is_choice_sep s)"
    using assms unfolding well_formed_choice_def ch
    by (auto simp: length_Suc_conv)
  have dw: "dropWhile (\<lambda>x. x \<noteq> NL) t = []" using t by (induction t) auto
  have ns: "\<not> is_choice_sep STAR" by (simp add: is_choice_sep_def)
  from sep show ?thesis
  proof
    assume "sep = []"
    then show ?thesis
      using l ns
      by (simp add: choice_item_def choice_line_def bold_label_def ch lit_def space_facts dw)
  next
    assume "\<exists>s. sep = [s] \<and> is_choice_sep s"
    then obtain s where "sep = [s]" "is_choice_sep s" by blast
    then show ?thesis
      using l
      by (simp add: choice_item_def choice_line_def bold_label_def ch lit_def space_facts dw)
  qed
qed

lemma choice_items_block:
  assumes "\<forall>ch \<in> set items. well_formed_choice ch"
  shows "choice_items (choice_block items @ post) = choice_items post"
  using assms
proof (induction items)
  case Nil
  then show ?case by (simp add: choice_block_def)
next
  case (Cons ch items)
  have "choice_item (choice_line ch @ NL # (choice_block items @ post)) = Some (choice_block items @ post)"
    using Cons.prems by (intro choice_item_line) simp
  then have "choice_items (choice_block (ch # items) @ post) = choice_items (choice_block items @ post)"
    by (subst choice_items.simps) (simp add: choice_block_def)
  then show ?case using Cons by simp
qed

lemma choice_items_unmatched: "choice_item s = None \<Longrightarrow> choice_items s = s"
  by (simp add: choice_items.simps)

lemma choice_items_last: "well_formed_choice ch \<Longrightarrow> choice_items (choice_line ch) = []"
  using choice_item_last [of ch] choice_items_unmatched [of "[]"]
  by (subst choice_items.simps) (simp add: choice_item_def lit_def)

lemma search_first_here: "s \<noteq> [] \<Longrightarrow> f s = Some g \<Longrightarrow> search_first f s = Some g"
  by (cases s) auto

lemma takeWhile_ws_prefix:
  assumes "\<forall>c \<in> set w. is_space c" "r \<noteq> []" "\<not> is_space (hd r)"
  shows "takeWhile is_space (w @ r) = w" "dropWhile is_space (w @ r) = r"
  using assms by (induction w) (auto simp: takeWhile_eq_Nil_iff dropWhile_eq_self_iff)

lemma takeWhile_hash_run:
  assumes "r = [] \<or> hd r \<noteq> HASH"
  shows "takeWhile (\<lambda>x. x = HASH) (replicate h HASH @ r) = replicate h HASH"
  using assms by (induction h) (auto simp: takeWhile_eq_Nil_iff)

lemma sub_heading_here:
  assumes "3 \<le> h" "h \<le> 4" "\<forall>c \<in> set w1. is_space c" "w \<noteq> []" "\<not> is_space (hd w)" "hd w \<noteq> HASH"
  shows "sub_heading w (replicate h HASH @ w1 @ w @ rest) = Some rest"
proof -
  have nh: "w1 @ w @ rest = [] \<or> hd (w1 @ w @ rest) \<noteq> HASH"
    using assms(3,4,6) space_facts(5) by (cases w1) auto
  have tw: "takeWhile (\<lambda>x. x = HASH) (replicate h HASH @ w1 @ w @ rest) = replicate h HASH"
    using nh by (rule takeWhile_hash_run)
  have dw: "dropWhile is_space (w1 @ (w @ rest)) = w @ rest"
    using assms(3,4,5) by (intro takeWhile_ws_prefix(2)) auto
  show ?thesis
    unfolding sub_heading_def Let_def tw
    using assms(1,2) dw by (simp add: lit_def)
qed

lemma choice_block_hd:
  "items \<noteq> [] \<Longrightarrow> choice_block items \<noteq> [] \<and> hd (choice_block items) = DASH"
  by (cases items) (auto simp: choice_block_def choice_line_def)

lemma w_choices_facts: "w_choices \<noteq> []" "\<not> is_space (hd w_choices)" "hd w_choices \<noteq> HASH"
  by (simp_all add: w_choices_def is_space_def py_whitespace_def)

text \<open>
  The pattern of line 49 at a choices sub-heading: when the text \<open>g @ r\<close> behind the white
  space begins a round of the group and the rounds end in front of \<open>r\<close>, group 1 is \<open>g\<close>.
\<close>

lemma choices_at_heading:
  assumes "3 \<le> h" "h \<le> 4" "\<forall>c \<in> set w1. is_space c" "\<forall>c \<in> set w2. is_space c"
    and "g \<noteq> []" "hd g = DASH" "choice_item (g @ r) \<noteq> None" "choice_items (g @ r) = r"
  shows "choices_at (replicate h HASH @ w1 @ w_choices @ w2 @ NL # g @ r) = Some g"
proof -
  let ?b = "g @ r"
  have sh: "sub_heading w_choices (replicate h HASH @ w1 @ w_choices @ (w2 @ NL # ?b)) = Some (w2 @ NL # ?b)"
    using assms(1,2,3) w_choices_facts by (intro sub_heading_here) auto
  have bh: "?b \<noteq> []" "\<not> is_space (hd ?b)"
    using assms(5,6) space_facts(4) by auto
  have ws: "\<forall>c \<in> set (w2 @ [NL]). is_space c" using assms(4) space_facts(2) by auto
  have tw: "takeWhile is_space ((w2 @ [NL]) @ ?b) = w2 @ [NL]"
    and dw: "dropWhile is_space ((w2 @ [NL]) @ ?b) = ?b"
    using takeWhile_ws_prefix [OF ws bh] by simp_all
  show ?thesis
    unfolding choices_at_def
    using sh tw dw assms(7,8) by (simp add: Let_def)
qed

lemma split_lines_single: "NL \<notin> set l \<Longrightarrow> split_lines l = [l]"
  unfolding split_lines_def by (induction l) (auto split: list.splits)

lemma split_lines_cons: "NL \<notin> set l \<Longrightarrow> split_lines (l @ NL # rest) = l # split_lines rest"
  unfolding split_lines_def by (induction l) (auto split: list.splits)

lemma choice_line_free: "well_formed_choice ch \<Longrightarrow> NL \<notin> set (choice_line ch)"
  by (cases ch)
    (auto simp: well_formed_choice_def choice_line_def bold_label_def NL_def is_label_def
      is_choice_sep_def length_Suc_conv)

lemma choice_line_hd: "choice_line ch \<noteq> [] \<and> \<not> is_space (hd (choice_line ch))"
  by (simp add: choice_line_def space_facts)

lemma split_lines_block:
  assumes "\<forall>ch \<in> set xs. well_formed_choice ch" "NL \<notin> set l"
  shows "split_lines (choice_block xs @ l) = map choice_line xs @ [l]"
  using assms(1)
proof (induction xs)
  case Nil
  then show ?case using assms(2) by (simp add: choice_block_def split_lines_single)
next
  case (Cons ch xs)
  have "split_lines (choice_line ch @ NL # (choice_block xs @ l)) = choice_line ch # split_lines (choice_block xs @ l)"
    using Cons.prems by (intro split_lines_cons choice_line_free) simp
  then show ?case using Cons by (simp add: choice_block_def)
qed

lemma bold_label_hd: "bold_label ch @ t \<noteq> [] \<and> hd (bold_label ch @ t) = STAR"
  by (simp add: bold_label_def)

lemma py_strip_choice_line: "py_strip (choice_line ch) = [DASH, 32] @ py_rstrip (bold_label ch @ snd (snd ch))"
proof -
  have "py_strip (choice_line ch) = py_rstrip (choice_line ch)"
    using choice_line_hd [of ch] by (intro py_strip_nows_hd) auto
  moreover have "py_rstrip ([DASH, 32] @ (bold_label ch @ snd (snd ch))) = [DASH, 32] @ py_rstrip (bold_label ch @ snd (snd ch))"
    by (rule rtrim_append) (auto simp: bold_label_def space_facts)
  ultimately show ?thesis by (simp add: choice_line_def)
qed

lemma kept_text_strip: "kept_text ch = py_strip (bold_label ch @ snd (snd ch))"
proof -
  let ?t = "snd (snd ch)"
  have x: "bold_label ch @ ?t \<noteq> []" "\<not> is_space (hd (bold_label ch @ ?t))"
    using bold_label_hd [of ch ?t] space_facts(3) by auto
  have "py_rstrip (bold_label ch @ ?t) = bold_label ch @ py_rstrip ?t"
  proof (cases "\<exists>c \<in> set ?t. \<not> is_space c")
    case True
    then show ?thesis by (rule rtrim_append)
  next
    case False
    then have "py_rstrip (bold_label ch @ ?t) = py_rstrip (bold_label ch)" by (intro rtrim_ws) auto
    moreover have "py_rstrip ?t = []" using False by (simp add: py_rstrip_def dropWhile_eq_Nil_conv)
    moreover have "py_rstrip (bold_label ch) = bold_label ch"
      by (simp add: py_rstrip_def bold_label_def space_facts)
    ultimately show ?thesis by simp
  qed
  then show ?thesis using py_strip_nows_hd [OF x] by (simp add: kept_text_def)
qed

lemma keep_line_choice: "keep_line (choice_line ch) = [kept_text ch]"
proof -
  let ?x = "bold_label ch @ snd (snd ch)"
  have x: "?x \<noteq> []" "\<not> is_space (hd ?x)" using bold_label_hd [of ch "snd (snd ch)"] space_facts(3) by auto
  have r: "py_rstrip ?x \<noteq> []" "\<not> is_space (hd (py_rstrip ?x))" using rtrim_hd [OF x] x(2) by auto
  have "py_strip (py_rstrip ?x) = py_rstrip (py_rstrip ?x)" using r by (rule py_strip_nows_hd)
  then have "py_strip (py_rstrip ?x) = py_strip ?x" using py_strip_nows_hd [OF x] by (simp add: rtrim_idem)
  then show ?thesis
    by (simp add: keep_line_def py_strip_choice_line u_def kept_text_strip)
qed

lemma keep_line_rtrim:
  assumes "x \<noteq> []" "\<not> is_space (hd x)"
  shows "keep_line (py_rstrip x) = keep_line x"
proof -
  have r: "py_rstrip x \<noteq> []" "\<not> is_space (hd (py_rstrip x))" using rtrim_hd [OF assms] assms(2) by auto
  have "py_strip (py_rstrip x) = py_rstrip (py_rstrip x)" using r by (rule py_strip_nows_hd)
  then have "py_strip (py_rstrip x) = py_strip x" using py_strip_nows_hd [OF assms] by (simp add: rtrim_idem)
  then show ?thesis by (simp add: keep_line_def)
qed

text \<open>
  The list without a line feed behind its last line, and with one: \<^verbatim>\<open>strip\<close> (line 53)
  makes the two the same text.
\<close>

lemma choice_list_snoc: "choice_list (xs @ [ch]) = choice_block xs @ choice_line ch"
proof (induction xs)
  case Nil
  show ?case by (simp add: choice_list_def choice_block_def)
next
  case (Cons x xs)
  have "py_join [NL] (choice_line x # map choice_line (xs @ [ch]))
        = choice_line x @ [NL] @ py_join [NL] (map choice_line (xs @ [ch]))"
    by (cases xs) simp_all
  then show ?case using Cons by (simp add: choice_list_def choice_block_def)
qed

lemma choice_block_list: "items \<noteq> [] \<Longrightarrow> choice_block items = choice_list items @ [NL]"
proof -
  assume "items \<noteq> []"
  then obtain xs ch where it: "items = xs @ [ch]" by (metis rev_exhaust)
  show ?thesis unfolding it choice_list_snoc by (simp add: choice_block_def)
qed

lemma choice_list_hd: "items \<noteq> [] \<Longrightarrow> choice_list items \<noteq> [] \<and> hd (choice_list items) = DASH"
  using choice_block_hd [of items] choice_block_list [of items]
  by (cases "choice_list items") (auto simp: NL_def)

lemma py_strip_list:
  assumes "\<forall>ch \<in> set xs. well_formed_choice ch" "\<forall>c \<in> set w. is_space c"
  shows "py_strip (choice_list (xs @ [ch]) @ w) = choice_block xs @ py_rstrip (choice_line ch)"
proof -
  let ?B = "choice_list (xs @ [ch]) @ w"
  have hd: "?B \<noteq> [] \<and> \<not> is_space (hd ?B)"
    using choice_list_hd [of "xs @ [ch]"] space_facts(4) by simp
  have "py_strip ?B = py_rstrip ?B" using hd by (intro py_strip_nows_hd) auto
  also have "\<dots> = py_rstrip (choice_block xs @ choice_line ch)"
    unfolding choice_list_snoc using assms(2) by (rule rtrim_ws)
  also have "\<dots> = choice_block xs @ py_rstrip (choice_line ch)"
    by (rule rtrim_append) (auto simp: choice_line_def space_facts)
  finally show ?thesis .
qed

lemma choice_lines_list:
  assumes "items \<noteq> []" "\<forall>ch \<in> set items. well_formed_choice ch" "\<forall>c \<in> set w. is_space c"
  shows "choice_lines (choice_list items @ w) = map kept_text items"
proof -
  obtain xs ch where it: "items = xs @ [ch]" using assms(1) by (metis rev_exhaust)
  have wf: "\<forall>c \<in> set xs. well_formed_choice c" "well_formed_choice ch" using assms(2) it by auto
  have fr: "NL \<notin> set (py_rstrip (choice_line ch))" using choice_line_free [OF wf(2)] by (rule rtrim_free)
  have "split_lines (py_strip (choice_list items @ w)) = map choice_line xs @ [py_rstrip (choice_line ch)]"
    unfolding it py_strip_list [OF wf(1) assms(3)] using wf(1) fr by (rule split_lines_block)
  moreover have "keep_line (py_rstrip (choice_line ch)) = [kept_text ch]"
    using keep_line_rtrim [of "choice_line ch"] choice_line_hd [of ch] keep_line_choice [of ch] by simp
  moreover have "concat (map keep_line (map choice_line xs)) = map kept_text xs"
    by (induction xs) (auto simp: keep_line_choice)
  ultimately show ?thesis by (simp add: choice_lines_def it)
qed

text \<open>
  The rounds of the group on such a list: they take the whole list, and the line feed
  behind it when there is one.
\<close>

lemma choice_list_rounds:
  assumes "items \<noteq> []" "\<forall>ch \<in> set items. well_formed_choice ch" "list_ends post"
  shows "choice_item (choice_list items @ post) \<noteq> None"
    and "choice_items (choice_list items @ post) = drop 1 post"
proof -
  obtain xs ch where it: "items = xs @ [ch]" using assms(1) by (metis rev_exhaust)
  have wf: "\<forall>c \<in> set xs. well_formed_choice c" "well_formed_choice ch" using assms(2) it by auto
  obtain y ys where ys: "items = y # ys" using assms(1) by (cases items) auto
  have wy: "well_formed_choice y" using assms(2) ys by simp
  show "choice_items (choice_list items @ post) = drop 1 post"
  proof (cases post)
    case Nil
    have "choice_items (choice_block xs @ choice_line ch) = choice_items (choice_line ch)"
      using wf(1) by (rule choice_items_block)
    then show ?thesis using Nil choice_items_last [OF wf(2)] by (simp add: it choice_list_snoc)
  next
    case (Cons c p)
    then have c: "c = NL" and p: "choice_item p = None" using assms(3) by (simp_all add: list_ends_def)
    have "choice_items (choice_block items @ p) = choice_items p"
      using assms(2) by (rule choice_items_block)
    then show ?thesis
      using Cons c choice_items_unmatched [OF p] choice_block_list [OF assms(1)] by simp
  qed
  show "choice_item (choice_list items @ post) \<noteq> None"
  proof (cases ys)
    case Nil
    show ?thesis
    proof (cases post)
      case Nil
      then show ?thesis using \<open>ys = []\<close> ys choice_item_last [OF wy] by (simp add: choice_list_def)
    next
      case (Cons c p)
      then have c: "c = NL" using assms(3) by (simp add: list_ends_def)
      show ?thesis
        using Cons c \<open>ys = []\<close> ys choice_item_line [OF wy, of p] by (simp add: choice_list_def)
    qed
  next
    case (Cons z zs)
    have "choice_list items @ post
          = choice_line y @ NL # (py_join [NL] (map choice_line (z # zs)) @ post)"
      by (simp add: choice_list_def ys Cons)
    then show ?thesis using choice_item_line [OF wy] by simp
  qed
qed

lemma search_first_unmatched:
  "unmatched_before f pre rest \<Longrightarrow> search_first f (pre @ rest) = search_first f rest"
  by (induction pre) auto


text \<open>
  Claim C3, as the code has it.  In a block where the choices pattern matches at no earlier
  position, a choices sub-heading (three or four number signs, the word, a line feed)
  followed by well-formed choice lines gives the lines without their list marker
  \<^verbatim>\<open>"- "\<close> and without white space at the end, joined with \<^verbatim>\<open>" / "\<close>.  The label with
  its separator and its asterisks is kept at the head of every piece.  This holds for
  every end of the list: the block may end in the last choice line, with or without a
  line feed, or go on behind a line feed with any text that is not one more line of the
  list.
\<close>

theorem extract_choices_keeps_labels:
  assumes "unmatched_before choices_at pre
             (replicate h HASH @ w1 @ w_choices @ w2 @ NL # choice_list items @ post)"
    and "3 \<le> h" "h \<le> 4" "\<forall>c \<in> set w1. is_space c" "\<forall>c \<in> set w2. is_space c"
    and "items \<noteq> []" "\<forall>ch \<in> set items. well_formed_choice ch" "list_ends post"
  shows "extract_choices (pre @ replicate h HASH @ w1 @ w_choices @ w2 @ NL # choice_list items @ post)
         = py_join (u '' / '') (map kept_text items)"
proof -
  let ?g = "choice_list items @ take 1 post"
  let ?s = "replicate h HASH @ w1 @ w_choices @ w2 @ NL # ?g @ drop 1 post"
  have b: "?g @ drop 1 post = choice_list items @ post" by simp
  have g: "?g \<noteq> []" "hd ?g = DASH" using choice_list_hd [OF assms(6)] by auto
  have ci: "choice_item (?g @ drop 1 post) \<noteq> None"
    unfolding b using assms(6-8) by (rule choice_list_rounds(1))
  have cis: "choice_items (?g @ drop 1 post) = drop 1 post"
    unfolding b using assms(6-8) by (rule choice_list_rounds(2))
  have ca: "choices_at ?s = Some ?g"
    using assms(2-5) g ci cis by (rule choices_at_heading)
  have ws: "\<forall>c \<in> set (take 1 post). is_space c"
    using assms(8) space_facts(2) by (cases post) (auto simp: list_ends_def)
  have kept: "choice_lines ?g = map kept_text items"
    using assms(6,7) ws by (rule choice_lines_list)
  have ne: "?s \<noteq> []" using assms(2) by auto
  have "search_first choices_at (pre @ ?s) = search_first choices_at ?s"
    using assms(1) by (intro search_first_unmatched) simp
  also have "\<dots> = Some ?g" using ne ca by (rule search_first_here)
  finally have "extract_choices (pre @ ?s) = py_join (u '' / '') (choice_lines ?g)"
    by (simp add: extract_choices_def)
  then show ?thesis unfolding kept by simp
qed

theorem extract_choices_keeps_labels_witness:
  "extract_choices
     (([NL] @ u ''#### '' @ w_problem @ [NL] @ u ''Which?'' @ [NL])
      @ replicate 4 HASH @ [32] @ w_choices @ [] @ NL
        # choice_list [(97, [46], u '' flexion''), (98, [46], u '' rotation '')]
      @ (NL # u ''#### '' @ w_answer @ [NL] @ u ''a. flexion''))
   = u ''**a.** flexion / **b.** rotation''
   \<and> extract_choices
     ([]
      @ replicate 3 HASH @ [32] @ w_choices @ [] @ NL
        # choice_list [(97, [46], u '' flexion''), (98, [46], u '' rotation'')]
      @ [])
   = u ''**a.** flexion / **b.** rotation''"
proof -
  have rep: "replicate 4 HASH = [HASH, HASH, HASH, HASH]" "replicate 3 HASH = [HASH, HASH, HASH]"
    by (simp_all add: numeral_eq_Suc)
  have h1: "unmatched_before choices_at ([NL] @ u ''#### '' @ w_problem @ [NL] @ u ''Which?''
    @ [NL])
     (replicate 4 HASH @ [32] @ w_choices @ [] @ NL
        # choice_list [(97, [46], u '' flexion''), (98, [46], u '' rotation '')]
      @ (NL # u ''#### '' @ w_answer @ [NL] @ u ''a. flexion''))"
    unfolding rep by (simp add: char_defs extract_defs choice_list_def choice_line_def bold_label_def)
  have h2: "\<forall>ch \<in> set [(97, [46], u '' flexion''), (98, [46], u '' rotation '')]. well_formed_choice ch"
    by (simp add: well_formed_choice_def char_defs)
  have h3: "list_ends (NL # u ''#### '' @ w_answer @ [NL] @ u ''a. flexion'')"
    by (simp add: list_ends_def char_defs extract_defs)
  have r: "py_join (u '' / '') (map kept_text [(97, [46], u '' flexion''), (98, [46], u '' rotation '')])
      = u ''**a.** flexion / **b.** rotation''"
    by (simp add: kept_text_def bold_label_def py_rstrip_def char_defs)
  have k1: "unmatched_before choices_at []
     (replicate 3 HASH @ [32] @ w_choices @ [] @ NL
        # choice_list [(97, [46], u '' flexion''), (98, [46], u '' rotation'')] @ [])"
    by simp
  have k2: "\<forall>ch \<in> set [(97, [46], u '' flexion''), (98, [46], u '' rotation'')]. well_formed_choice ch"
    by (simp add: well_formed_choice_def char_defs)
  have k3: "list_ends []" by (simp add: list_ends_def)
  have q: "py_join (u '' / '') (map kept_text [(97, [46], u '' flexion''), (98, [46], u '' rotation'')])
      = u ''**a.** flexion / **b.** rotation''"
    by (simp add: kept_text_def bold_label_def py_rstrip_def char_defs)
  show ?thesis
    using extract_choices_keeps_labels [OF h1 _ _ _ _ _ h2 h3]
      extract_choices_keeps_labels [OF k1 _ _ _ _ _ k2 k3] r q
    by (simp add: is_space_def py_whitespace_def)
qed

text \<open>
  Claim C3 as stated fails: the labels are not stripped.  For two lines labelled a and b
  the choices string is \<^verbatim>\<open>"**a.** flexion / **b.** rotation"\<close>, not
  \<^verbatim>\<open>"flexion / rotation"\<close>.
\<close>

theorem extract_choices_label_not_stripped:
  "extract_choices (u ''### '' @ w_choices @ [NL] @ u ''- **a.** flexion'' @ [NL]
    @ u ''- **b.** rotation'')
     = u ''**a.** flexion / **b.** rotation''
   \<and> extract_choices (u ''### '' @ w_choices @ [NL] @ u ''- **a.** flexion'' @ [NL]
     @ u ''- **b.** rotation'')
     \<noteq> u ''flexion / rotation''"
  by (simp add: char_defs extract_defs)

section \<open>Running the rewrite twice\<close>

lemma attaches_prefix: "attaches y z \<Longrightarrow> attaches (p @ y) (p @ z)"
  by (induction p) (auto intro: attaches_copy)

lemma attaches_tail_lines:
  assumes "attaches y z" "y = [] \<or> hd y = NL" "\<forall>l \<in> set ls. attached_line l \<and> NL \<notin> set l"
  shows "attaches y (tail_lines ls @ z)"
  using assms(3)
proof (induction ls)
  case Nil
  then show ?case using assms(1) by (simp add: tail_lines_def)
next
  case (Cons l ls)
  have "attaches y (NL # l @ (tail_lines ls @ z))"
    using Cons assms(2) by (intro attaches_line) auto
  then show ?case by (simp add: tail_lines_def)
qed

lemma split_lines_step:
  "split_lines (c # s) = (if c = NL then [] # split_lines s
                          else (c # hd (split_lines s)) # tl (split_lines s))"
  using split_on_ne [of "\<lambda>c. c = NL" s]
  by (cases "split_on (\<lambda>c. c = NL) s") (auto simp: split_lines_def)

lemma split_lines_hd_Nil: "y = [] \<or> hd y = NL \<Longrightarrow> hd (split_lines y) = []"
  by (cases y) (auto simp: split_lines_step split_lines_def)

lemma split_lines_append_line:
  "NL \<notin> set l \<Longrightarrow> split_lines (l @ z) = (l @ hd (split_lines z)) # tl (split_lines z)"
  unfolding split_lines_def by (rule split_on_append) auto

lemma attaches_lines:
  "attaches y z \<Longrightarrow>
     hd (split_lines z) = hd (split_lines y)
     \<and> filter (\<lambda>l. \<not> attached_line l) (tl (split_lines z))
       = filter (\<lambda>l. \<not> attached_line l) (tl (split_lines y))"
proof (induction rule: attaches.induct)
  case attaches_Nil
  then show ?case by simp
next
  case (attaches_copy y z c)
  have ny: "split_lines y \<noteq> []" and nz: "split_lines z \<noteq> []"
    by (simp_all add: split_lines_def split_on_ne)
  show ?case
  proof (cases "c = NL")
    case True
    have "filter (\<lambda>l. \<not> attached_line l) (split_lines z)
          = filter (\<lambda>l. \<not> attached_line l) (hd (split_lines z) # tl (split_lines z))"
      using nz by simp
    also have "\<dots> = filter (\<lambda>l. \<not> attached_line l) (hd (split_lines y) # tl (split_lines y))"
      using attaches_copy.IH by simp
    also have "\<dots> = filter (\<lambda>l. \<not> attached_line l) (split_lines y)" using ny by simp
    finally show ?thesis using True by (simp add: split_lines_step)
  next
    case False
    then show ?thesis using attaches_copy.IH by (simp add: split_lines_step)
  qed
next
  case (attaches_line y z l)
  have h: "hd (split_lines z) = []"
    using attaches_line.IH split_lines_hd_Nil [OF attaches_line.hyps(2)] by simp
  have "split_lines (NL # l @ z) = [] # l # tl (split_lines z)"
    using attaches_line.hyps(4) h by (simp add: split_lines_step split_lines_append_line)
  then show ?case
    using attaches_line.IH attaches_line.hyps(3) split_lines_hd_Nil [OF attaches_line.hyps(2)]
    by simp
qed

lemma split_lines_inject: "split_lines a = split_lines b \<Longrightarrow> a = b"
  using text_as_lines [of a] text_as_lines [of b] by simp

lemma strip_attached_attaches: "attaches y z \<Longrightarrow> strip_attached z = strip_attached y"
  by (rule split_lines_inject) (simp add: strip_attached_split attaches_lines)

lemma strip_attached_idem: "strip_attached (strip_attached s) = strip_attached s"
  by (rule split_lines_inject) (simp add: strip_attached_split)

lemma lit_suffix: "lit w s = Some r \<Longrightarrow> suffix r s"
  by (auto simp: lit_def suffix_drop split: if_splits)

lemma exam_token_suffix: "exam_token s = Some (g, r) \<Longrightarrow> suffix r s"
  by (auto simp: exam_token_def suffix_drop split: if_splits)

lemma q_token_suffix: "q_token s = Some (g, r) \<Longrightarrow> suffix r s"
  by (cases s) (auto simp: q_token_def split: if_splits intro: suffix_ConsI suffix_dropWhile)

lemma suffix_skip: "suffix r (dropWhile p s) \<Longrightarrow> suffix r s"
  using suffix_dropWhile suffix_order.trans by blast

lemma row_match_at_split:
  assumes "row_match_at s = Some (full, g1, g2, g3, rest)"
  shows "s = full @ rest \<and> (rest = [] \<or> hd rest = NL)"
proof -
  from assms obtain s1 where s1: "lit [BAR] s = Some s1"
    by (auto simp: row_match_at_def split: option.splits)
  from assms s1 obtain g1' s2 where s2: "exam_token (dropWhile is_space s1) = Some (g1', s2)"
    by (auto simp: row_match_at_def split: option.splits)
  from assms s1 s2 obtain s3 where s3: "lit [BAR] (dropWhile is_space s2) = Some s3"
    by (auto simp: row_match_at_def split: option.splits)
  from assms s1 s2 s3 obtain g2' s4 where s4: "q_token (dropWhile is_space s3) = Some (g2', s4)"
    by (auto simp: row_match_at_def split: option.splits)
  from assms s1 s2 s3 s4 obtain s5 where s5: "lit [BAR] (dropWhile is_space s4) = Some s5"
    by (auto simp: row_match_at_def split: option.splits)
  define r where "r = dropWhile (\<lambda>x. x \<noteq> BAR) s5"
  have res: "rest = tl r" "full = take (length s - length (tl r)) s" "tl r = [] \<or> hd (tl r) = NL"
    using assms s1 s2 s3 s4 s5 by (auto simp: row_match_at_def Let_def r_def split: if_splits)
  have "suffix s5 s"
    using lit_suffix [OF s1] exam_token_suffix [OF s2] lit_suffix [OF s3] q_token_suffix [OF s4]
      lit_suffix [OF s5]
    by (meson suffix_skip suffix_order.trans)
  moreover have "suffix (tl r) s5"
    unfolding r_def by (meson suffix_dropWhile suffix_tl suffix_order.trans)
  ultimately have "suffix rest s" using res(1) by (meson suffix_order.trans)
  then obtain p where p: "s = p @ rest" by (auto simp: suffix_def)
  then have "full = p" using res(1,2) by simp
  then show ?thesis using p res by simp
qed

lemma scan_candidates_result:
  "scan_candidates r cands pc = pc
   \<or> (\<exists>p c a. (p, c, a) \<in> set cands \<and> scan_candidates r cands pc = (p, c))"
proof (cases "first_match r cands")
  case None
  then show ?thesis by (simp add: scan_first_match)
next
  case (Some x)
  obtain p c a where x: "x = (p, c, a)" by (cases x)
  have "(p, c, a) \<in> set cands"
    using Some x unfolding first_match_def by (auto simp: find_Some_iff) (metis nth_mem)
  then show ?thesis using Some x by (auto simp: scan_first_match)
qed

lemma clean_by_qnum: "clean (bq, be) \<Longrightarrow> bq k = Some l \<Longrightarrow> x \<in> set l \<Longrightarrow> clean_entry x"
proof -
  assume a: "clean (bq, be)" "bq k = Some l" "x \<in> set l"
  then have "x \<in> set (entries_of (fst (bq, be)) k)" by (simp add: entries_of_def)
  then show ?thesis using a(1) unfolding clean_def by blast
qed

lemma clean_by_exam: "clean (bq, be) \<Longrightarrow> be e = Some l \<Longrightarrow> (q, x) \<in> set l \<Longrightarrow> clean_entry x"
proof -
  assume a: "clean (bq, be)" "be e = Some l" "(q, x) \<in> set l"
  then have "(q, x) \<in> set (entries_of (snd (bq, be)) e)" by (simp add: entries_of_def)
  then show ?thesis using a(1) unfolding clean_def by blast
qed

lemma resolve_clean:
  assumes "clean (bq, be)" "resolve bq be e q r = (p, c)"
  shows "NL \<notin> set p \<and> NL \<notin> set c"
proof -
  define cands where "cands = (case bq (e, q) of None \<Rightarrow> [] | Some l \<Rightarrow> l)"
  define pc where "pc = scan_candidates r cands ([], [])"
  have c1: "\<forall>x \<in> set cands. clean_entry x"
    using clean_by_qnum [OF assms(1)] by (cases "bq (e, q)") (auto simp: cands_def)
  have pc: "NL \<notin> set (fst pc) \<and> NL \<notin> set (snd pc)"
    using scan_candidates_result [of r cands "([], [])"] c1
    unfolding pc_def [symmetric] clean_entry_def by force
  show ?thesis
  proof (cases "fst pc = [] \<and> be e \<noteq> None")
    case True
    then obtain l where l: "be e = Some l" by auto
    have c2: "\<forall>x \<in> set (map snd l). clean_entry x"
      using clean_by_exam [OF assms(1) l] by auto
    have "resolve bq be e q r = scan_candidates r (map snd l) pc"
      using True l by (simp add: resolve_def Let_def cands_def pc_def)
    then show ?thesis
      using scan_candidates_result [of r "map snd l" pc] c2 pc assms(2)
      unfolding clean_entry_def by force
  next
    case False
    then have "resolve bq be e q r = pc"
      by (auto simp: resolve_def Let_def cands_def pc_def split: option.splits)
    then show ?thesis using pc assms(2) by auto
  qed
qed

lemma py_join_Cons: "py_join sep (l # ls) = (if ls = [] then l else l @ sep @ py_join sep ls)"
  by (cases ls) auto

lemma py_join_tail_lines: "ls \<noteq> [] \<Longrightarrow> NL # py_join [NL] ls = tail_lines ls"
  by (induction ls) (auto simp: tail_lines_def py_join_Cons)

lemma py_join_Nil_iff: "\<forall>l \<in> set ls. l \<noteq> [] \<Longrightarrow> (py_join sep ls = []) = (ls = [])"
  by (cases ls) (auto simp: py_join_Cons)

lemma replace_row_shape:
  assumes "clean (bq, be)"
  shows "\<exists>ls. replace_row bq be full g1 g2 g3 = full @ tail_lines ls
              \<and> (\<forall>l \<in> set ls. attached_line l \<and> NL \<notin> set l)"
proof (cases "q_number (py_strip g2)")
  case None
  then have "replace_row bq be full g1 g2 g3 = full @ tail_lines []"
    by (simp add: replace_row_def tail_lines_def)
  then show ?thesis by (intro exI [of _ "[]"]) simp
next
  case (Some ds)
  obtain p c where pc: "resolve bq be (py_strip g1) (int_of_digits ds) (py_strip g3) = (p, c)"
    by (cases "resolve bq be (py_strip g1) (int_of_digits ds) (py_strip g3)")
  have fr: "NL \<notin> set p" "NL \<notin> set c" using resolve_clean [OF assms pc] by auto
  define ls where "ls = (if p \<noteq> [] then [problem_marker @ p] else [])
                        @ (if c \<noteq> [] then [choices_marker @ c] else [])"
  have ne: "\<forall>l \<in> set ls. l \<noteq> []" by (auto simp: ls_def problem_marker_def choices_marker_def)
  have f: "format_problem_block p c = py_join [NL] ls"
    by (simp add: format_problem_block_def ls_def)
  have "replace_row bq be full g1 g2 g3 = full @ tail_lines ls"
  proof (cases "ls = []")
    case True
    then show ?thesis using Some pc f by (simp add: replace_row_def tail_lines_def)
  next
    case False
    then have "py_join [NL] ls \<noteq> []" using py_join_Nil_iff [OF ne] by simp
    then show ?thesis
      using Some pc f py_join_tail_lines [OF False] by (simp add: replace_row_def)
  qed
  moreover have "\<forall>l \<in> set ls. attached_line l \<and> NL \<notin> set l"
    using fr markers_free by (auto simp: ls_def attached_line_def is_attached_def)
  ultimately show ?thesis by blast
qed

lemma sub_rows_attaches:
  assumes "clean (bq, be)"
  shows "attaches s (sub_rows bq be bol s)"
  using assms
proof (induction bq be bol s rule: sub_rows.induct)
  case (1 bq be bol)
  show ?case by (simp add: attaches_Nil)
next
  case (2 bq be bol c cs)
  show ?case
  proof (cases "if bol then row_match_at (c # cs) else None")
    case None
    then have "attaches cs (sub_rows bq be (c = NL) cs)" using "2.IH"(1) "2.prems" by simp
    then show ?thesis using None by (simp add: attaches_copy)
  next
    case (Some m)
    obtain full g1 g2 g3 rest where m: "m = (full, g1, g2, g3, rest)" by (cases m)
    have ih: "attaches rest (sub_rows bq be False rest)"
      using "2.IH"(2) [OF Some m [symmetric] refl refl refl "2.prems"] .
    have rm: "row_match_at (c # cs) = Some (full, g1, g2, g3, rest)"
      using Some m by (auto split: if_splits)
    have sp: "c # cs = full @ rest" "rest = [] \<or> hd rest = NL"
      using row_match_at_split [OF rm] by auto
    obtain ls where ls: "replace_row bq be full g1 g2 g3 = full @ tail_lines ls"
      "\<forall>l \<in> set ls. attached_line l \<and> NL \<notin> set l"
      using replace_row_shape [OF "2.prems"] by blast
    have "attaches rest (tail_lines ls @ sub_rows bq be False rest)"
      using ih sp(2) ls(2) by (rule attaches_tail_lines)
    then have "attaches (full @ rest) (full @ tail_lines ls @ sub_rows bq be False rest)"
      by (rule attaches_prefix)
    moreover have "sub_rows bq be bol (c # cs)
                   = replace_row bq be full g1 g2 g3 @ sub_rows bq be False rest"
      using Some m by simp
    ultimately show ?thesis by (simp only: ls(1) sp(1) [symmetric] append_assoc)
  qed
qed

lemma py_strip_subset: "set (py_strip s) \<subseteq> set s"
proof -
  have "set (py_strip s) \<subseteq> set (dropWhile is_space s)"
    unfolding py_strip_def using set_dropWhileD [of _ is_space "rev (dropWhile is_space s)"] by auto
  then show ?thesis using set_dropWhileD [of _ is_space s] by auto
qed

lemma nl_to_space_free: "NL \<notin> set (nl_to_space s)"
  by (auto simp: nl_to_space_def NL_def)

lemma extract_problem_free: "NL \<notin> set (extract_problem block)"
  by (simp add: extract_problem_def nl_to_space_free split: option.splits)

lemma keep_line_free: "NL \<notin> set line \<Longrightarrow> \<forall>x \<in> set (keep_line line). NL \<notin> set x"
proof -
  assume a: "NL \<notin> set line"
  have "set (py_strip (drop 2 (py_strip line))) \<subseteq> set line"
    using py_strip_subset [of "drop 2 (py_strip line)"] set_drop_subset [of 2 "py_strip line"]
      py_strip_subset [of line]
    by blast
  then show ?thesis using a by (auto simp: keep_line_def)
qed

lemma choice_lines_free: "\<forall>x \<in> set (choice_lines g). NL \<notin> set x"
  using split_lines_free [of "py_strip g"] keep_line_free
  by (auto simp: choice_lines_def)

lemma py_join_free:
  "NL \<notin> set sep \<Longrightarrow> \<forall>x \<in> set ls. NL \<notin> set x \<Longrightarrow> NL \<notin> set (py_join sep ls)"
  by (induction ls) (auto simp: py_join_Cons)

lemma extract_choices_free: "NL \<notin> set (extract_choices block)"
proof (cases "search_first choices_at block")
  case None
  then show ?thesis by (simp add: extract_choices_def)
next
  case (Some g)
  have "NL \<notin> set (u '' / '')" by (simp add: u_def NL_def)
  then have "NL \<notin> set (py_join (u '' / '') (choice_lines g))"
    using choice_lines_free [of g] by (rule py_join_free)
  then show ?thesis using Some by (simp add: extract_choices_def)
qed

lemma extract_clean: "clean_entry (extract_problem_choices_answer block)"
  by (simp add: clean_entry_def extract_problem_choices_answer_def extract_problem_free
      extract_choices_free)

lemma clean_add_entry: "clean idx \<Longrightarrow> clean_entry r \<Longrightarrow> clean (add_entry e r idx qn)"
  by (cases r) (auto simp: clean_def add_entry_def entries_of_append_at)

lemma clean_add_heading: "clean idx \<Longrightarrow> clean (add_heading e idx m)"
proof -
  assume a: "clean idx"
  have "clean (foldl (add_entry e (extract_problem_choices_answer (block_of (snd m)))) idx qs)" for qs
    using a by (rule foldl_invariant) (rule clean_add_entry [OF _ extract_clean])
  then show ?thesis using a by (simp add: add_heading_def Let_def)
qed

lemma clean_add_document: "clean idx \<Longrightarrow> clean (add_document idx doc)"
proof -
  assume a: "clean idx"
  obtain name body where d: "doc = (name, body)" by (cases doc)
  have "clean (foldl (add_heading x) idx hs)" for x hs
    using a by (rule foldl_invariant) (rule clean_add_heading)
  then show ?thesis using a by (simp add: add_document_def d)
qed

lemma clean_build_lookup: "clean (build_lookup docs)"
  unfolding build_lookup_def
proof (rule foldl_invariant)
  show "clean (Map.empty, Map.empty)" by (simp add: clean_def entries_of_def)
next
  fix a x assume "clean a" then show "clean (add_document a x)" by (rule clean_add_document)
qed

lemma rewrite_idempotent:
  assumes "clean idx"
  shows "rewrite idx (rewrite idx content) = rewrite idx content"
proof -
  obtain bq be where idx: "idx = (bq, be)" by (cases idx)
  let ?y = "strip_attached content"
  have "attaches ?y (sub_rows bq be True ?y)"
    using assms unfolding idx by (rule sub_rows_attaches)
  then have "strip_attached (sub_rows bq be True ?y) = strip_attached ?y"
    by (rule strip_attached_attaches)
  then have "strip_attached (sub_rows bq be True ?y) = ?y" by (simp add: strip_attached_idem)
  then show ?thesis by (simp add: rewrite_def idx)
qed


text \<open>
  Claim C5.  Whatever the corpus and the frequency document are, running \<^verbatim>\<open>main\<close> on its
  own output with the same corpus gives that output again: the second pre-pass removes
  exactly the lines that the first run attached, and the rows are then annotated as before.
\<close>

theorem main_idempotent: "main docs (main docs content) = main docs content"
proof -
  have "clean (build_lookup docs)" by (rule clean_build_lookup)
  then have "rewrite (build_lookup docs) (rewrite (build_lookup docs) content)
             = rewrite (build_lookup docs) content"
    by (rule rewrite_idempotent)
  then show ?thesis by (simp add: main_def)
qed

theorem main_idempotent_witness:
  "main [(ex_name, ex_doc)]
     (u ''| 202'' @ [50, 26412, 35430] @ u '' | '' @ [MON, 53] @ u '' | flexion |''
      @ [NL] @ problem_marker @ u ''Which?'' @ [NL] @ choices_marker @ u ''**a.** flexion'')
   = u ''| 202'' @ [50, 26412, 35430] @ u '' | '' @ [MON, 53] @ u '' | flexion |''
     @ [NL] @ problem_marker @ u ''Which?'' @ [NL] @ choices_marker @ u ''**a.** flexion''"
  using main_idempotent
    [of "[(ex_name, ex_doc)]"
      "u ''| 202'' @ [50, 26412, 35430] @ u '' | '' @ [MON, 53] @ u '' | flexion |''"]
  unfolding ex_main_row .

end
